theory Spec2Isabelle
  imports Complex_Main
begin

section \<open>Run-time values\<close>

text \<open>
  The diff engine of \<^verbatim>\<open>src/Diff.ts\<close> works on untyped JavaScript values
  (\<^verbatim>\<open>unknown\<close>, \<^verbatim>\<open>any\<close>).  The model keeps what the code observes of them:
  the primitive kinds, a number type on which \<^verbatim>\<open>===\<close> and \<^verbatim>\<open>Object.is\<close> differ, and
  objects, arrays and functions that carry the reference by which \<^verbatim>\<open>===\<close> compares them.
  An object is the list of its own properties in enumeration order, an array is dense,
  a function is opaque (the model gives it no property).  Of the prototype chain the
  model keeps what decides the own properties the code makes: the prototype of an object
  the code has made, through which it inherits the accessor \<^verbatim>\<open>__proto__\<close> or does
  not.  A read finds own properties
  only (a name the value inherits reads as \<^verbatim>\<open>undefined\<close>); other accessors,
  properties that are not enumerable (but the \<^verbatim>\<open>length\<close> of an array and of a string)
  and array holes are outside the model.
\<close>

datatype jsnum = NaN | PosInf | NegInf | NegZero | Fin rat
  \<comment> \<open>\<open>Fin 0\<close> is \<open>+0\<close>; \<open>NegZero\<close> is \<open>-0\<close>\<close>

datatype pkey = KStr string | KSym string
  \<comment> \<open>a property key at run time: a string, or a symbol named by its registry key\<close>

type_synonym ref = nat

datatype jsval =
    VUndefined
  | VNull
  | VBool bool
  | VNum jsnum
  | VStr string
  | VBigInt int
  | VSym string
  | VFun ref
  | VObj ref "(pkey \<times> jsval) list"
  | VArr ref "jsval list"

datatype err =
    TypeError
  | NotAString pkey   \<comment> \<open>thrown by \<^verbatim>\<open>validateString\<close>\<close>
  | NotJson jsval     \<comment> \<open>thrown by \<^verbatim>\<open>validateJson\<close>\<close>

text \<open>\<^verbatim>\<open>x === y\<close> on numbers: \<open>NaN\<close> differs from itself, the two zeros are equal.\<close>

fun is_zero :: "jsnum \<Rightarrow> bool" where
  "is_zero NegZero = True"
| "is_zero (Fin q) = (q = 0)"
| "is_zero _ = False"

definition strict_equals_num :: "jsnum \<Rightarrow> jsnum \<Rightarrow> bool" where
  "strict_equals_num x y =
     (if x = NaN \<or> y = NaN then False
      else if is_zero x \<and> is_zero y then True
      else x = y)"

text \<open>\<^verbatim>\<open>from === to\<close>: primitives by value, objects, arrays and functions by reference.\<close>

definition strict_equals :: "jsval \<Rightarrow> jsval \<Rightarrow> bool" where
  "strict_equals x y =
     (case x of
        VUndefined \<Rightarrow> (case y of VUndefined \<Rightarrow> True | _ \<Rightarrow> False)
      | VNull \<Rightarrow> (case y of VNull \<Rightarrow> True | _ \<Rightarrow> False)
      | VBool a \<Rightarrow> (case y of VBool b \<Rightarrow> a = b | _ \<Rightarrow> False)
      | VNum a \<Rightarrow> (case y of VNum b \<Rightarrow> strict_equals_num a b | _ \<Rightarrow> False)
      | VStr a \<Rightarrow> (case y of VStr b \<Rightarrow> a = b | _ \<Rightarrow> False)
      | VBigInt a \<Rightarrow> (case y of VBigInt b \<Rightarrow> a = b | _ \<Rightarrow> False)
      | VSym a \<Rightarrow> (case y of VSym b \<Rightarrow> a = b | _ \<Rightarrow> False)
      | VFun r \<Rightarrow> (case y of VFun s \<Rightarrow> r = s | _ \<Rightarrow> False)
      | VObj r _ \<Rightarrow> (case y of VObj s _ \<Rightarrow> r = s | _ \<Rightarrow> False)
      | VArr r _ \<Rightarrow> (case y of VArr s _ \<Rightarrow> r = s | _ \<Rightarrow> False))"

text \<open>\<^verbatim>\<open>Object.is(from, to)\<close> (SameValue): as \<^verbatim>\<open>===\<close>, but numbers compare by identity of
  the value, so \<open>NaN\<close> is itself and \<open>+0\<close> is not \<open>-0\<close>.\<close>

definition object_is :: "jsval \<Rightarrow> jsval \<Rightarrow> bool" where
  "object_is x y =
     (case x of
        VNum a \<Rightarrow> (case y of VNum b \<Rightarrow> a = b | _ \<Rightarrow> False)
      | _ \<Rightarrow> strict_equals x y)"

text \<open>Structural equality of two values, the ``structurally equals'' of the spec:
  references are ignored, objects have the same keys with equal values whatever the order,
  arrays are equal element by element, primitives are the same value.\<close>

fun struct_eq :: "jsval \<Rightarrow> jsval \<Rightarrow> bool" where
  "struct_eq (VObj r fs) y =
     (case y of
        VObj _ gs \<Rightarrow>
          set (map fst fs) = set (map fst gs) \<and>
          list_all (\<lambda>(k, v). case map_of gs k of None \<Rightarrow> False | Some w \<Rightarrow> struct_eq v w) fs
      | _ \<Rightarrow> False)"
| "struct_eq (VArr r xs) y =
     (case y of VArr _ ys \<Rightarrow> list_all2 struct_eq xs ys | _ \<Rightarrow> False)"
| "struct_eq (VFun r) y = (case y of VFun s \<Rightarrow> r = s | _ \<Rightarrow> False)"
| "struct_eq VUndefined y = (y = VUndefined)"
| "struct_eq VNull y = (y = VNull)"
| "struct_eq (VBool a) y = (y = VBool a)"
| "struct_eq (VNum a) y = (y = VNum a)"
| "struct_eq (VStr a) y = (y = VStr a)"
| "struct_eq (VBigInt a) y = (y = VBigInt a)"
| "struct_eq (VSym a) y = (y = VSym a)"

section \<open>Property access\<close>

text \<open>\<^verbatim>\<open>String(i)\<close> for an array index: its decimal digits.\<close>

fun string_of_nat :: "nat \<Rightarrow> string" where
  "string_of_nat n =
     (if n < 10 then [char_of (48 + n)]
      else string_of_nat (n div 10) @ [char_of (48 + n mod 10)])"

declare string_of_nat.simps [simp del]

text \<open>The own properties of a value, in enumeration order: what \<^verbatim>\<open>{ ...a }\<close> copies.
  An array and a string have their indices; the other primitives and a function have none.\<close>

definition indexed :: "jsval list \<Rightarrow> (pkey \<times> jsval) list" where
  "indexed xs = map (\<lambda>i. (KStr (string_of_nat i), xs ! i)) [0..<length xs]"

definition own_enumerable :: "jsval \<Rightarrow> (pkey \<times> jsval) list" where
  "own_enumerable a =
     (case a of
        VObj _ fs \<Rightarrow> fs
      | VArr _ xs \<Rightarrow> indexed xs
      | VStr s \<Rightarrow> indexed (map (\<lambda>c. VStr [c]) s)
      | _ \<Rightarrow> [])"

definition length_prop :: "jsval \<Rightarrow> (pkey \<times> jsval) list" where
  "length_prop a =
     (case a of
        VArr _ xs \<Rightarrow> [(KStr ''length'', VNum (Fin (of_nat (length xs))))]
      | VStr s \<Rightarrow> [(KStr ''length'', VNum (Fin (of_nat (length s))))]
      | _ \<Rightarrow> [])"

text \<open>\<^verbatim>\<open>Object.prototype.hasOwnProperty.call(a, name)\<close>: a \<^verbatim>\<open>TypeError\<close> on
  \<^verbatim>\<open>undefined\<close> and \<^verbatim>\<open>null\<close>.\<close>

definition hasOwnProperty :: "jsval \<Rightarrow> pkey \<Rightarrow> err + bool" where
  "hasOwnProperty a name =
     (if a = VUndefined \<or> a = VNull then Inl TypeError
      else Inr (name \<in> set (map fst (own_enumerable a @ length_prop a))))"

text \<open>\<^verbatim>\<open>a[name]\<close>: a \<^verbatim>\<open>TypeError\<close> on \<^verbatim>\<open>undefined\<close> and \<^verbatim>\<open>null\<close>,
  \<^verbatim>\<open>undefined\<close> for a property the value does not have.\<close>

definition get_prop :: "jsval \<Rightarrow> pkey \<Rightarrow> err + jsval" where
  "get_prop a name =
     (if a = VUndefined \<or> a = VNull then Inl TypeError
      else Inr (case map_of (own_enumerable a @ length_prop a) name of
                  None \<Rightarrow> VUndefined
                | Some v \<Rightarrow> v))"

text \<open>\<^verbatim>\<open>a[i]\<close> for a number \<open>i\<close> that is an index.\<close>

definition get_index :: "jsval \<Rightarrow> nat \<Rightarrow> err + jsval" where
  "get_index a i =
     (case a of
        VUndefined \<Rightarrow> Inl TypeError
      | VNull \<Rightarrow> Inl TypeError
      | VArr _ xs \<Rightarrow> Inr (if i < length xs then xs ! i else VUndefined)
      | VStr s \<Rightarrow> Inr (if i < length s then VStr [s ! i] else VUndefined)
      | VObj _ fs \<Rightarrow>
          Inr (case map_of fs (KStr (string_of_nat i)) of None \<Rightarrow> VUndefined | Some v \<Rightarrow> v)
      | _ \<Rightarrow> Inr VUndefined)"

text \<open>A statement that throws ends the run: the rest runs on the value of one that
  did not.\<close>

definition bindE :: "err + 'a \<Rightarrow> ('a \<Rightarrow> err + 'b) \<Rightarrow> err + 'b" where
  "bindE m f = (case m of Inl e \<Rightarrow> Inl e | Inr x \<Rightarrow> f x)"

text \<open>The own property keys of an object enumerate in this order: the array indices,
  ascending; then the other strings, then the symbols, each in order of creation.  An array
  index is a string that is the decimal form, without leading zeros, of a number below
  \<open>2^32 - 1\<close>.\<close>

definition is_digit :: "char \<Rightarrow> bool" where
  "is_digit c = (c \<in> set ''0123456789'')"

definition digits_value :: "string \<Rightarrow> int" where
  "digits_value s = foldl (\<lambda>acc c. 10 * acc + (of_char c - 48)) 0 s"

definition array_index :: "pkey \<Rightarrow> int option" where
  "array_index k =
     (case k of
        KSym s \<Rightarrow> None
      | KStr s \<Rightarrow>
          (if s \<noteq> [] \<and> list_all is_digit s \<and> (length s = 1 \<or> hd s \<noteq> CHR ''0'') \<and>
              digits_value s < 4294967295
           then Some (digits_value s) else None))"

text \<open>Whether a new key \<open>name\<close> enumerates before the key \<open>k\<close> that exists.\<close>

definition comes_before :: "pkey \<Rightarrow> pkey \<Rightarrow> bool" where
  "comes_before name k =
     (case array_index name of
        Some i \<Rightarrow> (case array_index k of Some j \<Rightarrow> i < j | None \<Rightarrow> True)
      | None \<Rightarrow>
          (case name of
             KStr s \<Rightarrow> (case k of KStr t \<Rightarrow> False | KSym t \<Rightarrow> True)
           | KSym s \<Rightarrow> False))"

fun insert_prop :: "(pkey \<times> jsval) list \<Rightarrow> pkey \<Rightarrow> jsval \<Rightarrow> (pkey \<times> jsval) list" where
  "insert_prop [] name v = [(name, v)]"
| "insert_prop ((k, w) # fs) name v =
     (if comes_before name k then (name, v) # (k, w) # fs
      else (k, w) # insert_prop fs name v)"

definition update_prop :: "(pkey \<times> jsval) list \<Rightarrow> pkey \<Rightarrow> jsval \<Rightarrow> (pkey \<times> jsval) list" where
  "update_prop fs name v = map (\<lambda>(k, w). if k = name then (k, v) else (k, w)) fs"

text \<open>\<^verbatim>\<open>out[name] = v\<close> on an object that the code has just made (\<^verbatim>\<open>{}\<close>,
  \<^verbatim>\<open>{ ...a }\<close>).  Such an object has \<^verbatim>\<open>Object.prototype\<close> as its prototype and
  inherits the accessor \<^verbatim>\<open>__proto__\<close> from it, so the model keeps the prototype with
  the own properties.  An own property named \<open>name\<close> takes the value and keeps its
  place.  Otherwise the name \<^verbatim>\<open>__proto__\<close> goes to the setter, where the object
  inherits it: no own property is made; the value becomes the prototype when it is
  \<^verbatim>\<open>null\<close> or an object, and nothing happens when it is another primitive.  The setter
  is inherited from \<^verbatim>\<open>Object.prototype\<close>; with the prototype \<^verbatim>\<open>null\<close> it is not,
  and with a value as the prototype it is unless the value has an own property
  \<^verbatim>\<open>__proto__\<close> (an object among the values is taken to have \<^verbatim>\<open>Object.prototype\<close>
  at the end of its chain).  Every other assignment makes a new own property, at its place
  in the enumeration order.\<close>

datatype proto = ObjectPrototype | NullPrototype | ValuePrototype jsval

type_synonym plain = "(pkey \<times> jsval) list \<times> proto"

definition is_object :: "jsval \<Rightarrow> bool" where
  "is_object v = (case v of VObj r fs \<Rightarrow> True | VArr r xs \<Rightarrow> True | VFun r \<Rightarrow> True | _ \<Rightarrow> False)"

definition inherits_setter :: "proto \<Rightarrow> bool" where
  "inherits_setter p =
     (case p of
        ObjectPrototype \<Rightarrow> True
      | NullPrototype \<Rightarrow> False
      | ValuePrototype v \<Rightarrow> KStr ''__proto__'' \<notin> set (map fst (own_enumerable v)))"

definition set_prop :: "plain \<Rightarrow> pkey \<Rightarrow> jsval \<Rightarrow> plain" where
  "set_prop out name v =
     (case out of (fs, p) \<Rightarrow>
        if name \<in> set (map fst fs) then (update_prop fs name v, p)
        else if name = KStr ''__proto__'' \<and> inherits_setter p
        then (fs, if v = VNull then NullPrototype else if is_object v then ValuePrototype v else p)
        else (insert_prop fs name v, p))"

text \<open>\<^verbatim>\<open>delete out[name]\<close>: the own property \<open>name\<close> goes, if there is one.\<close>

definition delete_prop :: "plain \<Rightarrow> pkey \<Rightarrow> plain" where
  "delete_prop out name =
     (case out of (fs, p) \<Rightarrow> (filter (\<lambda>(k, w). k \<noteq> name) fs, p))"

text \<open>\<^verbatim>\<open>out[index] = v\<close> on an array: past the end the array grows, the positions
  in between read as \<^verbatim>\<open>undefined\<close>.  \<^verbatim>\<open>out.splice(index, 0, v)\<close> inserts before
  \<open>index\<close> (at the end when \<open>index\<close> is past it); \<^verbatim>\<open>out.splice(index, 1)\<close> removes the
  element at \<open>index\<close> (nothing when there is none).\<close>

definition set_index :: "jsval list \<Rightarrow> nat \<Rightarrow> jsval \<Rightarrow> jsval list" where
  "set_index out i v =
     (if i < length out then out[i := v]
      else out @ replicate (i - length out) VUndefined @ [v])"

definition splice_insert :: "jsval list \<Rightarrow> nat \<Rightarrow> jsval \<Rightarrow> jsval list" where
  "splice_insert out i v = take i out @ [v] @ drop i out"

definition splice_remove :: "jsval list \<Rightarrow> nat \<Rightarrow> jsval list" where
  "splice_remove out i = take i out @ drop (Suc i) out"

section \<open>Operations\<close>

text \<open>
  The interfaces \<^verbatim>\<open>Identical\<close>, \<^verbatim>\<open>Replace\<close>, \<^verbatim>\<open>ObjectOps\<close>, \<^verbatim>\<open>ArrayOps\<close>,
  \<^verbatim>\<open>Add\<close> and \<^verbatim>\<open>Remove\<close> are the constructors of one type.  The source's two unions
  over them are predicates: \<^verbatim>\<open>Op\<close> (a root: no \<^verbatim>\<open>Add\<close>, no \<^verbatim>\<open>Remove\<close>) and
  \<^verbatim>\<open>NestedOp\<close> (a child: no \<^verbatim>\<open>Identical\<close>); the entry lists are non-empty.
  An array index is a natural number, as the differ produces it.
\<close>

datatype op =
    Identical
  | Replace jsval jsval
  | ObjectOps "(pkey \<times> op) list"
  | ArrayOps "(nat \<times> op) list"
  | Add jsval
  | Remove jsval

fun is_NestedOp :: "op \<Rightarrow> bool" where
  "is_NestedOp Identical = False"
| "is_NestedOp (Replace f t) = True"
| "is_NestedOp (Add v) = True"
| "is_NestedOp (Remove v) = True"
| "is_NestedOp (ObjectOps ops) = (ops \<noteq> [] \<and> list_all (\<lambda>(k, sub). is_NestedOp sub) ops)"
| "is_NestedOp (ArrayOps ops) = (ops \<noteq> [] \<and> list_all (\<lambda>(i, sub). is_NestedOp sub) ops)"

definition is_Op :: "op \<Rightarrow> bool" where
  "is_Op p = (case p of Identical \<Rightarrow> True | Add v \<Rightarrow> False | Remove v \<Rightarrow> False | _ \<Rightarrow> is_NestedOp p)"

definition isIdentical :: "op \<Rightarrow> bool" where
  "isIdentical p = (case p of Identical \<Rightarrow> True | _ \<Rightarrow> False)"

subsection \<open>Reversal\<close>

text \<open>\<^verbatim>\<open>reverseNestedOp\<close> with \<^verbatim>\<open>reverseReplace\<close>, \<^verbatim>\<open>reverseObjectOps\<close> and
  \<^verbatim>\<open>reverseArrayOps\<close>.  On a tag outside its parameter type a function of the model
  returns its argument.\<close>

definition reverseReplace :: "op \<Rightarrow> op" where
  "reverseReplace p = (case p of Replace f t \<Rightarrow> Replace t f | _ \<Rightarrow> p)"

fun reverseNestedOp :: "op \<Rightarrow> op"
  and reverseObjectOps :: "op \<Rightarrow> op"
  and reverseArrayOps :: "op \<Rightarrow> op" where
  "reverseNestedOp (Replace f t) = reverseReplace (Replace f t)"
| "reverseNestedOp (Add v) = Remove v"
| "reverseNestedOp (Remove v) = Add v"
| "reverseNestedOp (ObjectOps ops) = reverseObjectOps (ObjectOps ops)"
| "reverseNestedOp (ArrayOps ops) = reverseArrayOps (ArrayOps ops)"
| "reverseNestedOp Identical = Identical"
| "reverseObjectOps (ObjectOps ops) = ObjectOps (map (\<lambda>(key, sub). (key, reverseNestedOp sub)) ops)"
| "reverseObjectOps p = p"
| "reverseArrayOps (ArrayOps ops) = ArrayOps (map (\<lambda>(key, sub). (key, reverseNestedOp sub)) ops)"
| "reverseArrayOps p = p"

definition reverseOp :: "op \<Rightarrow> op" where
  "reverseOp p =
     (case p of
        Identical \<Rightarrow> p
      | Replace f t \<Rightarrow> reverseReplace p
      | ObjectOps ops \<Rightarrow> reverseObjectOps p
      | ArrayOps ops \<Rightarrow> reverseArrayOps p
      | _ \<Rightarrow> p)"

text \<open>A \<^verbatim>\<open>Patch<A>\<close> is its \<^verbatim>\<open>op\<close>: the type parameter is a phantom.\<close>

type_synonym patch = op

definition make :: "op \<Rightarrow> patch" where
  "make p = p"

definition reverse :: "patch \<Rightarrow> patch" where
  "reverse patch = make (reverseOp patch)"

section \<open>Patch executor\<close>

text \<open>
  \<^verbatim>\<open>runOp\<close> allocates: \<^verbatim>\<open>{ ...a }\<close> and \<^verbatim>\<open>a.slice()\<close> are new objects.  The model
  threads the next free reference through the run; the caller starts it above the
  references of the values in use.  Each loop over \<^verbatim>\<open>op.ops\<close> is a
  function of the entries left, the input \<open>a\<close> and the copy \<open>out\<close> built so far (for an
  object, its own properties and its prototype).
  A \<^verbatim>\<open>switch\<close> that no case matches does nothing, and \<^verbatim>\<open>runOp\<close> then returns
  \<^verbatim>\<open>undefined\<close>.  On a string \<^verbatim>\<open>a.slice()\<close> is the string, which has no
  \<^verbatim>\<open>splice\<close> and takes no assignment: every entry but an \<open>Identical\<close> one throws.
\<close>

function (sequential)
  runOp :: "op \<Rightarrow> jsval \<Rightarrow> ref \<Rightarrow> err + (jsval \<times> ref)"
  and runObjectEntries ::
    "(pkey \<times> op) list \<Rightarrow> jsval \<Rightarrow> plain \<Rightarrow> ref \<Rightarrow> err + (plain \<times> ref)"
  and runArrayEntries ::
    "(nat \<times> op) list \<Rightarrow> jsval \<Rightarrow> jsval list \<Rightarrow> ref \<Rightarrow> err + (jsval list \<times> ref)"
where
  "runOp Identical a n = Inr (a, n)"
| "runOp (Replace f t) a n = Inr (t, n)"
| "runOp (ObjectOps ops) a n =
     (case runObjectEntries ops a (own_enumerable a, ObjectPrototype) (Suc n) of
        Inl e \<Rightarrow> Inl e
      | Inr (out, n') \<Rightarrow> Inr (VObj n (fst out), n'))"
| "runOp (ArrayOps ops) a n =
     (case a of
        VArr r xs \<Rightarrow>
          (case runArrayEntries ops a xs (Suc n) of
             Inl e \<Rightarrow> Inl e
           | Inr (out, n') \<Rightarrow> Inr (VArr n out, n'))
      | VStr s \<Rightarrow>
          (if list_all (\<lambda>(index, subop). subop = Identical) ops then Inr (VStr s, n)
           else Inl TypeError)
      | _ \<Rightarrow> Inl TypeError)"
| "runOp (Add v) a n = Inr (VUndefined, n)"
| "runOp (Remove v) a n = Inr (VUndefined, n)"

| "runObjectEntries [] a out n = Inr (out, n)"
| "runObjectEntries ((name, Add v) # ops) a out n =
     runObjectEntries ops a (set_prop out name v) n"
| "runObjectEntries ((name, Remove v) # ops) a out n =
     runObjectEntries ops a (delete_prop out name) n"
| "runObjectEntries ((name, Identical) # ops) a out n =
     runObjectEntries ops a out n"
| "runObjectEntries ((name, subop) # ops) a out n =
     (case get_prop a name of
        Inl e \<Rightarrow> Inl e
      | Inr x \<Rightarrow>
          (case runOp subop x n of
             Inl e \<Rightarrow> Inl e
           | Inr (v, n') \<Rightarrow> runObjectEntries ops a (set_prop out name v) n'))"

| "runArrayEntries [] a out n = Inr (out, n)"
| "runArrayEntries ((index, Add v) # ops) a out n =
     runArrayEntries ops a (splice_insert out index v) n"
| "runArrayEntries ((index, Remove v) # ops) a out n =
     runArrayEntries ops a (splice_remove out index) n"
| "runArrayEntries ((index, Identical) # ops) a out n =
     runArrayEntries ops a out n"
| "runArrayEntries ((index, subop) # ops) a out n =
     (case get_index a index of
        Inl e \<Rightarrow> Inl e
      | Inr x \<Rightarrow>
          (case runOp subop x n of
             Inl e \<Rightarrow> Inl e
           | Inr (v, n') \<Rightarrow> runArrayEntries ops a (set_index out index v) n'))"
  by pat_completeness auto

termination
  by (relation "measure (\<lambda>x. case x of
        Inl (p, a, n) \<Rightarrow> size p
      | Inr (Inl (ops, a, out, n)) \<Rightarrow> size_list (size_prod (\<lambda>k. 0) size) ops
      | Inr (Inr (ops, a, out, n)) \<Rightarrow> size_list (size_prod (\<lambda>k. 0) size) ops)")
     auto

definition runPatch :: "patch \<Rightarrow> jsval \<Rightarrow> ref \<Rightarrow> err + (jsval \<times> ref)" where
  "runPatch patch = runOp patch"

section \<open>Shape descriptors\<close>

text \<open>
  The declarations of \<^verbatim>\<open>AST.AST\<close> are not among the sources.  The type below has one
  constructor for each tag \<^verbatim>\<open>go\<close> switches on and the fields \<^verbatim>\<open>go\<close> reads:
  \<^verbatim>\<open>from\<close> of a refinement, \<^verbatim>\<open>f\<close> of a lazy node, \<^verbatim>\<open>elements\<close> of a tuple with the
  \<^verbatim>\<open>type\<close> of each, \<^verbatim>\<open>propertySignatures\<close> (\<^verbatim>\<open>name\<close>, \<^verbatim>\<open>type\<close>) and
  \<^verbatim>\<open>indexSignatures\<close> (\<^verbatim>\<open>parameter\<close>, \<^verbatim>\<open>type\<close>) of a type literal.  The fields it
  does not read are kept where a shape needs them to be told from another: the rest
  elements of a tuple (the element type of an array), what is optional, the members of a
  union, the two sides of a transformation, the value of a literal.

  The thunk \<^verbatim>\<open>f\<close> of a lazy node is a number; a table gives the descriptor the
  thunk returns, so a descriptor can refer to itself, as a recursive schema does.
\<close>

datatype ast =
    Declaration
  | Literal jsval
  | UniqueSymbol string
  | UndefinedKeyword
  | VoidKeyword
  | NeverKeyword
  | UnknownKeyword
  | AnyKeyword
  | StringKeyword
  | NumberKeyword
  | BooleanKeyword
  | BigIntKeyword
  | SymbolKeyword
  | ObjectKeyword
  | Enums "(string \<times> jsval) list"
  | TemplateLiteral
  | Union "ast list"
  | Transform ast ast
  | Refinement ast
  | Lazy nat
  | Tuple "element list" "ast list"
  | TypeLiteral "property_signature list" "index_signature list"
and element = Element (el_type: ast) (el_isOptional: bool)
and property_signature = PropertySignature (ps_name: pkey) (ps_type: ast) (ps_isOptional: bool)
and index_signature = IndexSignature (is_parameter: ast) (is_type: ast)

type_synonym thunks = "nat \<Rightarrow> ast"

section \<open>Differ compiler\<close>

type_synonym differ = "jsval \<Rightarrow> jsval \<Rightarrow> err + patch"

definition identical :: op where
  "identical = Identical"

definition replace :: "jsval \<Rightarrow> jsval \<Rightarrow> op" where
  "replace f t = Replace f t"

definition add :: "jsval \<Rightarrow> op" where
  "add v = Add v"

definition remove :: "jsval \<Rightarrow> op" where
  "remove v = Remove v"

definition objectOps :: "(pkey \<times> op) list \<Rightarrow> op" where
  "objectOps ops = ObjectOps ops"

definition arrayOps :: "(nat \<times> op) list \<Rightarrow> op" where
  "arrayOps ops = ArrayOps ops"

text \<open>The two leaf comparators of \<^verbatim>\<open>go\<close>: \<^verbatim>\<open>Object.is\<close> for \<^verbatim>\<open>NumberKeyword\<close>,
  \<^verbatim>\<open>===\<close> for the other leaves.\<close>

definition number_differ :: differ where
  "number_differ from to = Inr (make (if object_is from to then identical else replace from to))"

definition leaf_differ :: differ where
  "leaf_differ from to = Inr (make (if strict_equals from to then identical else replace from to))"

text \<open>The differ of a tuple: the loop over \<^verbatim>\<open>elements\<close>, at position \<open>i\<close> with the
  entries \<open>ops\<close> pushed so far.\<close>

fun tuple_loop :: "differ list \<Rightarrow> nat \<Rightarrow> jsval \<Rightarrow> jsval \<Rightarrow> (nat \<times> op) list \<Rightarrow> err + (nat \<times> op) list" where
  "tuple_loop [] i from to ops = Inr ops"
| "tuple_loop (differ # elements) i from to ops =
     bindE (get_index from i) (\<lambda>x.
     bindE (get_index to i) (\<lambda>y.
     bindE (differ x y) (\<lambda>p.
       tuple_loop elements (Suc i) from to
         (if \<not> isIdentical p then ops @ [(i, p)] else ops))))"

definition tuple_differ :: "differ list \<Rightarrow> differ" where
  "tuple_differ elements from to =
     bindE (tuple_loop elements 0 from to []) (\<lambda>ops.
       Inr (make (if ops \<noteq> [] then arrayOps ops else identical)))"

text \<open>The differ of a type literal.  First the loop over the property signatures:
  each is the \<^verbatim>\<open>name\<close> of \<^verbatim>\<open>ast.propertySignatures[i]\<close> with the compiled differ
  \<^verbatim>\<open>propertySignatures[i]\<close>.\<close>

fun propertySignatures_loop ::
  "(pkey \<times> differ) list \<Rightarrow> jsval \<Rightarrow> jsval \<Rightarrow> (pkey \<times> op) list \<Rightarrow> err + (pkey \<times> op) list" where
  "propertySignatures_loop [] from to ops = Inr ops"
| "propertySignatures_loop ((name, differ) # pss) from to ops =
     bindE (hasOwnProperty from name) (\<lambda>in_from.
       if in_from then
         bindE (hasOwnProperty to name) (\<lambda>in_to.
           if in_to then
             bindE (get_prop from name) (\<lambda>x.
             bindE (get_prop to name) (\<lambda>y.
             bindE (differ x y) (\<lambda>p.
               propertySignatures_loop pss from to
                 (if \<not> isIdentical p then ops @ [(name, p)] else ops))))
           else
             bindE (get_prop from name) (\<lambda>x.
               propertySignatures_loop pss from to (ops @ [(name, remove x)])))
       else
         bindE (hasOwnProperty to name) (\<lambda>in_to.
           if in_to then
             bindE (get_prop to name) (\<lambda>y.
               propertySignatures_loop pss from to (ops @ [(name, add y)]))
           else propertySignatures_loop pss from to ops))"

text \<open>Modelled from the spec: \<^verbatim>\<open>I.getKeysForIndexSignature\<close>, of
  \<^verbatim>\<open>internal/common\<close>, is not among the sources.  The spec asks for a deterministic
  enumeration, ``insertion order of the source object for string keys, then symbol-like
  keys in registration order'': the keys of the value that the parameter of the index
  signature ranges over (strings for a string or template-literal parameter, symbols
  for a symbol parameter, through refinements), in the order of the object.\<close>

definition object_keys :: "jsval \<Rightarrow> err + pkey list" where
  "object_keys input =
     (if input = VUndefined \<or> input = VNull then Inl TypeError
      else Inr (filter (\<lambda>k. case k of KStr s \<Rightarrow> True | KSym s \<Rightarrow> False)
                  (map fst (own_enumerable input))))"

definition object_symbols :: "jsval \<Rightarrow> err + pkey list" where
  "object_symbols input =
     (if input = VUndefined \<or> input = VNull then Inl TypeError
      else Inr (filter (\<lambda>k. case k of KStr s \<Rightarrow> False | KSym s \<Rightarrow> True)
                  (map fst (own_enumerable input))))"

fun getKeysForIndexSignature :: "jsval \<Rightarrow> ast \<Rightarrow> err + pkey list" where
  "getKeysForIndexSignature input StringKeyword = object_keys input"
| "getKeysForIndexSignature input TemplateLiteral = object_keys input"
| "getKeysForIndexSignature input SymbolKeyword = object_symbols input"
| "getKeysForIndexSignature input (Refinement from) = getKeysForIndexSignature input from"
| "getKeysForIndexSignature input _ = Inl TypeError"

text \<open>\<^verbatim>\<open>expectedKeys\<close>: the own properties of the object that starts as \<^verbatim>\<open>{}\<close>
  and gets \<^verbatim>\<open>expectedKeys[name] = null\<close> for each declared name in turn.\<close>

definition expectedKeys :: "property_signature list \<Rightarrow> (pkey \<times> jsval) list" where
  "expectedKeys pss =
     fst (fold (\<lambda>ps acc. set_prop acc (ps_name ps) VNull) pss ([], ObjectPrototype))"

text \<open>The two inner loops of an index signature, over \<^verbatim>\<open>fromKeys\<close> and over
  \<^verbatim>\<open>toKeys\<close>, and the loop over the index signatures (the \<^verbatim>\<open>parameter\<close> of
  \<^verbatim>\<open>ast.indexSignatures[i]\<close> with the differ \<^verbatim>\<open>indexSignatures[i]\<close>).\<close>

fun fromKeys_loop ::
  "(pkey \<times> jsval) list \<Rightarrow> differ \<Rightarrow> pkey list \<Rightarrow> jsval \<Rightarrow> jsval \<Rightarrow> (pkey \<times> op) list \<Rightarrow> err + (pkey \<times> op) list" where
  "fromKeys_loop expected differ [] from to ops = Inr ops"
| "fromKeys_loop expected differ (name # fromKeys) from to ops =
     (if name \<in> set (map fst expected) then fromKeys_loop expected differ fromKeys from to ops
      else
        bindE (hasOwnProperty to name) (\<lambda>in_to.
          if in_to then
            bindE (get_prop from name) (\<lambda>x.
            bindE (get_prop to name) (\<lambda>y.
            bindE (differ x y) (\<lambda>p.
              fromKeys_loop expected differ fromKeys from to
                (if \<not> isIdentical p then ops @ [(name, p)] else ops))))
          else
            bindE (get_prop from name) (\<lambda>x.
              fromKeys_loop expected differ fromKeys from to (ops @ [(name, remove x)]))))"

fun toKeys_loop ::
  "(pkey \<times> jsval) list \<Rightarrow> pkey list \<Rightarrow> jsval \<Rightarrow> jsval \<Rightarrow> (pkey \<times> op) list \<Rightarrow> err + (pkey \<times> op) list" where
  "toKeys_loop expected [] from to ops = Inr ops"
| "toKeys_loop expected (name # toKeys) from to ops =
     (if name \<in> set (map fst expected) then toKeys_loop expected toKeys from to ops
      else
        bindE (hasOwnProperty from name) (\<lambda>in_from.
          if \<not> in_from then
            bindE (get_prop to name) (\<lambda>y.
              toKeys_loop expected toKeys from to (ops @ [(name, add y)]))
          else toKeys_loop expected toKeys from to ops))"

fun indexSignatures_loop ::
  "(pkey \<times> jsval) list \<Rightarrow> (ast \<times> differ) list \<Rightarrow> jsval \<Rightarrow> jsval \<Rightarrow> (pkey \<times> op) list \<Rightarrow> err + (pkey \<times> op) list" where
  "indexSignatures_loop expected [] from to ops = Inr ops"
| "indexSignatures_loop expected ((parameter, differ) # iss) from to ops =
     bindE (getKeysForIndexSignature from parameter) (\<lambda>fromKeys.
     bindE (fromKeys_loop expected differ fromKeys from to ops) (\<lambda>ops1.
     bindE (getKeysForIndexSignature to parameter) (\<lambda>toKeys.
     bindE (toKeys_loop expected toKeys from to ops1) (\<lambda>ops2.
       indexSignatures_loop expected iss from to ops2))))"

definition typeLiteral_differ ::
  "property_signature list \<Rightarrow> index_signature list \<Rightarrow> differ list \<Rightarrow> differ list \<Rightarrow> differ" where
  "typeLiteral_differ ast_pss ast_iss propertySignatures indexSignatures from to =
     bindE (propertySignatures_loop (zip (map ps_name ast_pss) propertySignatures) from to []) (\<lambda>ops1.
     bindE (if length indexSignatures > 0
            then indexSignatures_loop (expectedKeys ast_pss)
                   (zip (map is_parameter ast_iss) indexSignatures) from to ops1
            else Inr ops1) (\<lambda>ops.
       Inr (make (if ops \<noteq> [] then objectOps ops else identical))))"

text \<open>
  \<^verbatim>\<open>go\<close> compiles a descriptor: it calls itself on the parts of the descriptor before
  it returns the differ, and on what the thunk of a lazy node returns.  The recursion of
  the source is not bounded by the descriptor, so the model counts the depth of the
  calls: \<open>go n\<close> is \<open>None\<close> when the calls nest deeper than \<open>n\<close>.  A descriptor on which
  \<open>go n\<close> is \<open>None\<close> for every \<open>n\<close> is one on which \<^verbatim>\<open>go\<close> does not return.
\<close>

fun go :: "nat \<Rightarrow> thunks \<Rightarrow> ast \<Rightarrow> differ option" where
  "go 0 f a = None"
| "go (Suc n) f a =
     (case a of
        NumberKeyword \<Rightarrow> Some number_differ
      | Refinement from \<Rightarrow> go n f from
      | Lazy t \<Rightarrow> go n f (f t)
      | Tuple ast_elements rest \<Rightarrow>
          (case those (map (\<lambda>e. go n f (el_type e)) ast_elements) of
             None \<Rightarrow> None
           | Some elements \<Rightarrow> Some (tuple_differ elements))
      | TypeLiteral ast_pss ast_iss \<Rightarrow>
          (case those (map (\<lambda>ps. go n f (ps_type ps)) ast_pss) of
             None \<Rightarrow> None
           | Some propertySignatures \<Rightarrow>
               (case those (map (\<lambda>is. go n f (is_type is)) ast_iss) of
                  None \<Rightarrow> None
                | Some indexSignatures \<Rightarrow>
                    Some (typeLiteral_differ ast_pss ast_iss propertySignatures indexSignatures)))
      | _ \<Rightarrow> Some leaf_differ)"

text \<open>\<^verbatim>\<open>fromSchema\<close> compiles \<^verbatim>\<open>AST.to(schema.ast)\<close>.  \<^verbatim>\<open>AST.to\<close> is not among the
  sources; it is a parameter here.\<close>

definition fromSchema :: "(ast \<Rightarrow> ast) \<Rightarrow> nat \<Rightarrow> thunks \<Rightarrow> ast \<Rightarrow> differ option" where
  "fromSchema ast_to n f schema_ast = go n f (ast_to schema_ast)"

section \<open>JSON Patch\<close>

datatype json_patch =
    PatchAdd (path: string) (patch_value: jsval)
  | PatchRemove (path: string)
  | PatchReplace (path: string) (patch_value: jsval)

text \<open>\<^verbatim>\<open>s.replaceAll(pattern, replacement)\<close> for strings: the occurrences of the
  pattern are found from the left and do not overlap; an empty pattern matches before
  every character and at the end.\<close>

function replace_scan :: "string \<Rightarrow> string \<Rightarrow> string \<Rightarrow> string" where
  "replace_scan s pat rep =
     (if s = [] \<or> pat = [] then []
      else if take (length pat) s = pat then rep @ replace_scan (drop (length pat) s) pat rep
      else hd s # replace_scan (tl s) pat rep)"
  by pat_completeness auto

termination
  by (relation "measure (\<lambda>(s, pat, rep). length s)") auto

declare replace_scan.simps [simp del]

definition replaceAll :: "string \<Rightarrow> string \<Rightarrow> string \<Rightarrow> string" where
  "replaceAll s pat rep =
     (if pat = [] then rep @ concat (map (\<lambda>c. c # rep) s) else replace_scan s pat rep)"

definition pointer :: "string list \<Rightarrow> string" where
  "pointer p = concat (map (\<lambda>s. ''/'' @ replaceAll (replaceAll s ''~'' ''~0'') ''/'' ''~1'') p)"

text \<open>Modelled from the spec: \<^verbatim>\<open>S.validate(S.json)\<close> with
  \<^verbatim>\<open>onExcessProperty: "error"\<close> and \<^verbatim>\<open>S.validate(S.string)\<close> are not among the
  sources.  By the spec a value is accepted when it is JSON-representable (null, a
  boolean, a number that JSON can write, a string, an array of such values, an object with
  string keys and such values) and a key when it is a string; the validator returns what
  it accepts and throws on the rest.  JSON writes the finite numbers, \<open>-0\<close> among them
  (the tests of the repository lower a replacement of \<open>0\<close> by \<open>-0\<close>); it has no
  \<open>NaN\<close> and no infinity.\<close>

fun is_json :: "jsval \<Rightarrow> bool" where
  "is_json VNull = True"
| "is_json (VBool b) = True"
| "is_json (VNum x) = (x \<noteq> NaN \<and> x \<noteq> PosInf \<and> x \<noteq> NegInf)"
| "is_json (VStr s) = True"
| "is_json (VArr r xs) = list_all is_json xs"
| "is_json (VObj r fs) =
     list_all (\<lambda>(k, v). (case k of KStr s \<Rightarrow> True | KSym s \<Rightarrow> False) \<and> is_json v) fs"
| "is_json VUndefined = False"
| "is_json (VBigInt i) = False"
| "is_json (VSym s) = False"
| "is_json (VFun r) = False"

definition validateJson :: "jsval \<Rightarrow> err + jsval" where
  "validateJson a = (if is_json a then Inr a else Inl (NotJson a))"

definition validateString :: "pkey \<Rightarrow> err + string" where
  "validateString key = (case key of KStr s \<Rightarrow> Inr s | KSym s \<Rightarrow> Inl (NotAString key))"

text \<open>
  \<^verbatim>\<open>getJSONPatch\<close> fills the array \<^verbatim>\<open>out\<close> while it keeps the stack \<^verbatim>\<open>path\<close>.
  Its local functions take both here and return the new \<^verbatim>\<open>out\<close>; \<^verbatim>\<open>path\<close> is as
  it was when a local function returns (every push has its pop).  A validator that
  throws leaves the whole call: \<^verbatim>\<open>Either.liftThrowable\<close> turns it into a left.
  The \<^verbatim>\<open>switch\<close> on the tag of an entry is the same text in \<^verbatim>\<open>objectOps\<close> and
  \<^verbatim>\<open>arrayOps\<close>; it is \<open>jp_entry\<close>.
\<close>

definition jp_replace :: "string list \<Rightarrow> json_patch list \<Rightarrow> jsval \<Rightarrow> err + json_patch list" where
  "jp_replace p out to = bindE (validateJson to) (\<lambda>v. Inr (out @ [PatchReplace (pointer p) v]))"

definition jp_add :: "string list \<Rightarrow> json_patch list \<Rightarrow> jsval \<Rightarrow> err + json_patch list" where
  "jp_add p out v = bindE (validateJson v) (\<lambda>w. Inr (out @ [PatchAdd (pointer p) w]))"

definition jp_remove :: "string list \<Rightarrow> json_patch list \<Rightarrow> err + json_patch list" where
  "jp_remove p out = Inr (out @ [PatchRemove (pointer p)])"

function (sequential)
  jp_entry :: "op \<Rightarrow> string list \<Rightarrow> json_patch list \<Rightarrow> err + json_patch list"
  and jp_objectOps :: "(pkey \<times> op) list \<Rightarrow> string list \<Rightarrow> json_patch list \<Rightarrow> err + json_patch list"
  and jp_arrayOps :: "(nat \<times> op) list \<Rightarrow> string list \<Rightarrow> json_patch list \<Rightarrow> err + json_patch list"
where
  "jp_entry (Replace f t) p out = jp_replace p out t"
| "jp_entry (Add v) p out = jp_add p out v"
| "jp_entry (Remove v) p out = jp_remove p out"
| "jp_entry (ObjectOps ops) p out = jp_objectOps ops p out"
| "jp_entry (ArrayOps ops) p out = jp_arrayOps ops p out"
| "jp_entry Identical p out = Inr out"

| "jp_objectOps [] p out = Inr out"
| "jp_objectOps ((key, sub) # ops) p out =
     bindE (validateString key) (\<lambda>seg.
     bindE (jp_entry sub (p @ [seg]) out) (\<lambda>out'.
       jp_objectOps ops p out'))"

| "jp_arrayOps [] p out = Inr out"
| "jp_arrayOps ((key, sub) # ops) p out =
     bindE (jp_entry sub (p @ [string_of_nat key]) out) (\<lambda>out'.
       jp_arrayOps ops p out')"
  by pat_completeness auto

termination
  by (relation "measure (\<lambda>x. case x of
        Inl (sub, p, out) \<Rightarrow> size sub
      | Inr (Inl (ops, p, out)) \<Rightarrow> size_list (size_prod (\<lambda>k. 0) size) ops
      | Inr (Inr (ops, p, out)) \<Rightarrow> size_list (size_prod (\<lambda>k. 0) size) ops)")
     auto

definition getJSONPatch :: "op \<Rightarrow> err + json_patch list" where
  "getJSONPatch p =
     (case p of
        Identical \<Rightarrow> Inr []
      | Replace f t \<Rightarrow> jp_replace [] [] t
      | ObjectOps ops \<Rightarrow> jp_objectOps ops [] []
      | ArrayOps ops \<Rightarrow> jp_arrayOps ops [] []
      | _ \<Rightarrow> Inr [])"

section \<open>Reference definitions\<close>

text \<open>The escape of one character of a path segment, in the words of RFC 6901:
  \<open>~\<close> is written \<open>~0\<close> and \<open>/\<close> is written \<open>~1\<close>.\<close>

definition escape_char :: "char \<Rightarrow> string" where
  "escape_char c = (if c = CHR ''~'' then ''~0'' else if c = CHR ''/'' then ''~1'' else [c])"

text \<open>\<^verbatim>\<open>S.record(S.string, S.string)\<close>: no declared field, one index signature.\<close>

definition record_string :: ast where
  "record_string = TypeLiteral [] [IndexSignature StringKeyword StringKeyword]"

text \<open>What lowering reads of an operation tree: the keys of the object entries, each
  pushed on the path, and the values of the \<open>replace\<close> and \<open>add\<close> entries, each handed
  to the validator; and the document the spec describes, the entries of a depth-first
  traversal, each with the pointer of the path to it.\<close>

definition is_string_key :: "pkey \<Rightarrow> bool" where
  "is_string_key k = (case k of KStr s \<Rightarrow> True | KSym s \<Rightarrow> False)"

definition segment_of :: "pkey \<Rightarrow> string" where
  "segment_of k = (case k of KStr s \<Rightarrow> s | KSym s \<Rightarrow> [])"

fun path_keys :: "op \<Rightarrow> pkey list" where
  "path_keys (ObjectOps ops) = concat (map (\<lambda>(k, sub). k # path_keys sub) ops)"
| "path_keys (ArrayOps ops) = concat (map (\<lambda>(i, sub). path_keys sub) ops)"
| "path_keys p = []"

fun emitted_values :: "op \<Rightarrow> jsval list" where
  "emitted_values (Replace f t) = [t]"
| "emitted_values (Add v) = [v]"
| "emitted_values (ObjectOps ops) = concat (map (\<lambda>(k, sub). emitted_values sub) ops)"
| "emitted_values (ArrayOps ops) = concat (map (\<lambda>(i, sub). emitted_values sub) ops)"
| "emitted_values p = []"

fun patch_entries :: "string list \<Rightarrow> op \<Rightarrow> json_patch list" where
  "patch_entries p (Replace f t) = [PatchReplace (pointer p) t]"
| "patch_entries p (Add v) = [PatchAdd (pointer p) v]"
| "patch_entries p (Remove v) = [PatchRemove (pointer p)]"
| "patch_entries p (ObjectOps ops) =
     concat (map (\<lambda>(k, sub). patch_entries (p @ [segment_of k]) sub) ops)"
| "patch_entries p (ArrayOps ops) =
     concat (map (\<lambda>(i, sub). patch_entries (p @ [string_of_nat i]) sub) ops)"
| "patch_entries p Identical = []"

definition lowerable :: "op \<Rightarrow> bool" where
  "lowerable p = (list_all is_string_key (path_keys p) \<and> list_all is_json (emitted_values p))"

definition offending :: "op \<Rightarrow> err list" where
  "offending p =
     map NotAString (filter (\<lambda>k. \<not> is_string_key k) (path_keys p)) @
     map NotJson (filter (\<lambda>v. \<not> is_json v) (emitted_values p))"

text \<open>The record algorithm in the words of the spec.  \<open>own_prop\<close> is the own property of
  a value, if it has it.  \<open>field_entry\<close> is the present/absent rule for one name: present
  in both, the entry of the recursive diff unless that is identical; present only in
  \<open>from\<close>, a \<open>Remove\<close> of the old value; present only in \<open>to\<close>, an \<open>Add\<close> of the new
  one; absent in both, nothing.  The declared fields come first, in declaration order;
  then, for each index signature, the same rule on the keys of \<open>from\<close> and on the keys of
  \<open>to\<close> that \<open>from\<close> does not have, the declared names left out.  \<open>collect\<close> puts the
  entries together in order; a differ that throws ends the diff.\<close>

definition own_prop :: "jsval \<Rightarrow> pkey \<Rightarrow> jsval option" where
  "own_prop a name = map_of (own_enumerable a @ length_prop a) name"

fun collect :: "(err + 'a list) list \<Rightarrow> err + 'a list" where
  "collect [] = Inr []"
| "collect (m # ms) =
     (case m of
        Inl e \<Rightarrow> Inl e
      | Inr xs \<Rightarrow> (case collect ms of Inl e \<Rightarrow> Inl e | Inr ys \<Rightarrow> Inr (xs @ ys)))"

definition field_entry :: "jsval \<Rightarrow> jsval \<Rightarrow> differ \<Rightarrow> pkey \<Rightarrow> err + (pkey \<times> op) list" where
  "field_entry from to differ name =
     (case own_prop from name of
        Some x \<Rightarrow>
          (case own_prop to name of
             Some y \<Rightarrow>
               (case differ x y of
                  Inl e \<Rightarrow> Inl e
                | Inr p \<Rightarrow> Inr (if p = Identical then [] else [(name, p)]))
           | None \<Rightarrow> Inr [(name, Remove x)])
      | None \<Rightarrow>
          (case own_prop to name of
             Some y \<Rightarrow> Inr [(name, Add y)]
           | None \<Rightarrow> Inr []))"

definition declared_entries ::
  "jsval \<Rightarrow> jsval \<Rightarrow> property_signature list \<Rightarrow> differ list \<Rightarrow> (err + (pkey \<times> op) list) list" where
  "declared_entries from to pss ds =
     map (\<lambda>(ps, differ). field_entry from to differ (ps_name ps)) (zip pss ds)"

definition index_entries ::
  "jsval \<Rightarrow> jsval \<Rightarrow> pkey list \<Rightarrow> ast \<Rightarrow> differ \<Rightarrow> err + (pkey \<times> op) list" where
  "index_entries from to declared parameter differ =
     bindE (getKeysForIndexSignature from parameter) (\<lambda>fromKeys.
     bindE (getKeysForIndexSignature to parameter) (\<lambda>toKeys.
       collect (map (field_entry from to differ)
         (filter (\<lambda>k. k \<notin> set declared) fromKeys @
          filter (\<lambda>k. k \<notin> set declared \<and> own_prop from k = None) toKeys))))"

definition record_entries ::
  "jsval \<Rightarrow> jsval \<Rightarrow> property_signature list \<Rightarrow> index_signature list \<Rightarrow> differ list \<Rightarrow> differ list
     \<Rightarrow> err + (pkey \<times> op) list" where
  "record_entries from to pss iss pds ids =
     collect (declared_entries from to pss pds @
              map (\<lambda>(isig, differ). index_entries from to (map ps_name pss) (is_parameter isig) differ)
                (zip iss ids))"

definition not_nullish :: "jsval \<Rightarrow> bool" where
  "not_nullish a = (a \<noteq> VUndefined \<and> a \<noteq> VNull)"

definition struct_optional_element :: ast where
  "struct_optional_element = TypeLiteral
     [PropertySignature (KStr ''t'')
        (Tuple [Element (TypeLiteral [PropertySignature (KStr ''b'') StringKeyword False] []) True] [])
        False] []"

definition struct_proto_record :: ast where
  "struct_proto_record = TypeLiteral
     [PropertySignature (KStr ''__proto__'') StringKeyword True]
     [IndexSignature StringKeyword StringKeyword]"

definition struct_abc :: ast where
  "struct_abc = TypeLiteral
     [PropertySignature (KStr ''a'') StringKeyword False,
      PropertySignature (KStr ''b'') NumberKeyword True,
      PropertySignature (KStr ''c'') StringKeyword True] []"

text \<open>For the differ of a tuple: \<open>elem a i\<close> is \<^verbatim>\<open>a[i]\<close> with an absent position read as
  \<^verbatim>\<open>undefined\<close>; \<open>position_entry\<close> is the entry of position \<open>i\<close>, the diff of
  \<open>from[i]\<close> against \<open>to[i]\<close> unless it is identical.  \<open>has_add_or_remove\<close> says that
  an \<open>Add\<close> or a \<open>Remove\<close> occurs somewhere in a tree, \<open>positional\<close> that no entry of an
  \<open>ArrayOps\<close> node of the tree is one.\<close>

definition is_add_or_remove :: "op \<Rightarrow> bool" where
  "is_add_or_remove p = (case p of Add v \<Rightarrow> True | Remove v \<Rightarrow> True | _ \<Rightarrow> False)"

fun has_add_or_remove :: "op \<Rightarrow> bool" where
  "has_add_or_remove (Add v) = True"
| "has_add_or_remove (Remove v) = True"
| "has_add_or_remove (ObjectOps ops) = list_ex (\<lambda>(k, sub). has_add_or_remove sub) ops"
| "has_add_or_remove (ArrayOps ops) = list_ex (\<lambda>(i, sub). has_add_or_remove sub) ops"
| "has_add_or_remove p = False"

fun positional :: "op \<Rightarrow> bool" where
  "positional (ArrayOps ops) = list_all (\<lambda>(i, sub). \<not> is_add_or_remove sub \<and> positional sub) ops"
| "positional (ObjectOps ops) = list_all (\<lambda>(k, sub). positional sub) ops"
| "positional p = True"

definition elem :: "jsval \<Rightarrow> nat \<Rightarrow> jsval" where
  "elem a i = (case get_index a i of Inl e \<Rightarrow> VUndefined | Inr v \<Rightarrow> v)"

definition position_entry :: "jsval \<Rightarrow> jsval \<Rightarrow> differ \<Rightarrow> nat \<Rightarrow> err + (nat \<times> op) list" where
  "position_entry from to differ i =
     (case differ (elem from i) (elem to i) of
        Inl e \<Rightarrow> Inl e
      | Inr p \<Rightarrow> Inr (if p = Identical then [] else [(i, p)]))"

definition tuple_optional_record :: ast where
  "tuple_optional_record =
     Tuple [Element (TypeLiteral [PropertySignature (KStr ''a'') StringKeyword True] []) False] []"

definition root_positional :: "op \<Rightarrow> bool" where
  "root_positional p = (\<not> is_add_or_remove p \<and> positional p)"

definition sound_differ :: "differ \<Rightarrow> bool" where
  "sound_differ d = (\<forall>x y p. d x y = Inr p \<longrightarrow> root_positional p)"

text \<open>A position has a leaf type when its type is, under refinements and behind lazy
  references, neither a tuple nor a type literal: one of the tags for which \<^verbatim>\<open>go\<close>
  returns a leaf comparator.  The count is the one of \<^verbatim>\<open>go\<close>.\<close>

fun leaf_type :: "nat \<Rightarrow> thunks \<Rightarrow> ast \<Rightarrow> bool" where
  "leaf_type 0 f a = False"
| "leaf_type (Suc n) f a =
     (case a of
        Refinement base \<Rightarrow> leaf_type n f base
      | Lazy t \<Rightarrow> leaf_type n f (f t)
      | Tuple elements rest \<Rightarrow> False
      | TypeLiteral pss iss \<Rightarrow> False
      | _ \<Rightarrow> True)"

definition tuple_optional_tuple :: ast where
  "tuple_optional_tuple = Tuple [Element (Tuple [Element StringKeyword False] []) True] []"

definition tuple_optional_struct_b :: ast where
  "tuple_optional_struct_b =
     Tuple [Element (TypeLiteral [PropertySignature (KStr ''b'') StringKeyword False] []) True] []"

text \<open>For the array patches.  An entry of an \<open>ArrayOps\<close> node is one of four edits of
  the array: an \<open>Add\<close> inserts its value before the index, a \<open>Remove\<close> deletes the
  element at the index, a \<open>Replace\<close>, \<open>ObjectOps\<close> or \<open>ArrayOps\<close> entry assigns at the
  index the value that the entry makes of the element the input has there, and an
  \<open>Identical\<close> entry keeps the array.  \<open>resolve_entries\<close> turns the entries into their
  edits, in the order of the list; only the nested runs allocate and can throw.
  \<open>edit_step\<close> is what one edit does to the array it finds.\<close>

datatype array_edit = Insert jsval | Delete | Assign jsval | Keep

definition resolve_entry :: "op \<Rightarrow> jsval \<Rightarrow> nat \<Rightarrow> ref \<Rightarrow> err + (array_edit \<times> ref)" where
  "resolve_entry sub a i n =
     (case sub of
        Add v \<Rightarrow> Inr (Insert v, n)
      | Remove v \<Rightarrow> Inr (Delete, n)
      | Identical \<Rightarrow> Inr (Keep, n)
      | _ \<Rightarrow>
          bindE (get_index a i) (\<lambda>x.
          bindE (runOp sub x n) (\<lambda>(v, n'). Inr (Assign v, n'))))"

fun resolve_entries ::
  "(nat \<times> op) list \<Rightarrow> jsval \<Rightarrow> ref \<Rightarrow> err + ((nat \<times> array_edit) list \<times> ref)" where
  "resolve_entries [] a n = Inr ([], n)"
| "resolve_entries ((i, sub) # es) a n =
     bindE (resolve_entry sub a i n) (\<lambda>(e, n').
     bindE (resolve_entries es a n') (\<lambda>(eds, n'').
       Inr ((i, e) # eds, n'')))"

definition edit_step :: "jsval list \<Rightarrow> nat \<times> array_edit \<Rightarrow> jsval list" where
  "edit_step out e =
     (case snd e of
        Insert v \<Rightarrow> splice_insert out (fst e) v
      | Delete \<Rightarrow> splice_remove out (fst e)
      | Assign v \<Rightarrow> set_index out (fst e) v
      | Keep \<Rightarrow> out)"

text \<open>\<open>apply_at_captured_indices\<close> is the edit the spec asks for: every index addresses
  the array as it was when the diff was taken, so the result is, position by position of
  that array, the value inserted before the position, if any, followed by the element,
  or by the value assigned at the position, unless the element is deleted; and at the end
  the value inserted at the length.  A list of entries is \<open>descending\<close> when its indices
  strictly decrease, and \<open>in_bounds\<close> when every deletion and every assignment addresses
  an element and every other edit a position up to the length.\<close>

definition inserted :: "(nat \<times> array_edit) list \<Rightarrow> nat \<Rightarrow> jsval list" where
  "inserted eds j = (case map_of eds j of Some (Insert v) \<Rightarrow> [v] | _ \<Rightarrow> [])"

definition kept :: "(nat \<times> array_edit) list \<Rightarrow> jsval list \<Rightarrow> nat \<Rightarrow> jsval list" where
  "kept eds xs j =
     (case map_of eds j of
        Some Delete \<Rightarrow> []
      | Some (Assign v) \<Rightarrow> [v]
      | _ \<Rightarrow> [xs ! j])"

definition apply_at_captured_indices :: "jsval list \<Rightarrow> (nat \<times> array_edit) list \<Rightarrow> jsval list" where
  "apply_at_captured_indices xs eds =
     concat (map (\<lambda>j. inserted eds j @ kept eds xs j) [0..<length xs]) @ inserted eds (length xs)"

definition addresses :: "nat \<Rightarrow> nat \<Rightarrow> array_edit \<Rightarrow> bool" where
  "addresses len i e =
     (case e of Delete \<Rightarrow> i < len | Assign v \<Rightarrow> i < len | _ \<Rightarrow> i \<le> len)"

definition in_bounds :: "nat \<Rightarrow> (nat \<times> array_edit) list \<Rightarrow> bool" where
  "in_bounds len eds = list_all (\<lambda>(i, e). addresses len i e) eds"

definition descending :: "(nat \<times> 'a) list \<Rightarrow> bool" where
  "descending es = sorted_wrt (\<lambda>i j. i > j) (map fst es)"

text \<open>Schemas of the tests: \<^verbatim>\<open>S.array(S.string)\<close>, a tuple with no element and a rest
  element; the \<^verbatim>\<open>User\<close> schema, whose optional field \<^verbatim>\<open>subUser\<close> is
  \<^verbatim>\<open>S.lazy(() => User)\<close>; and the schema of the test ``lazy (manual)'', whose field
  \<^verbatim>\<open>as\<close> is an array of the schema itself.\<close>

definition array_string :: ast where
  "array_string = Tuple [] [StringKeyword]"

definition user_schema :: ast where
  "user_schema = TypeLiteral
     [PropertySignature (KStr ''name'') StringKeyword False,
      PropertySignature (KStr ''subUser'') (Lazy 0) True] []"

definition user_thunks :: thunks where
  "user_thunks t = user_schema"

definition list_schema :: ast where
  "list_schema = TypeLiteral
     [PropertySignature (KStr ''a'') StringKeyword False,
      PropertySignature (KStr ''as'') (Tuple [] [Lazy 0]) False] []"

definition list_thunks :: thunks where
  "list_thunks t = list_schema"

text \<open>A descriptor has no lazy node among the parts \<^verbatim>\<open>go\<close> compiles.\<close>

fun lazy_free :: "ast \<Rightarrow> bool" where
  "lazy_free (Lazy t) = False"
| "lazy_free (Refinement base) = lazy_free base"
| "lazy_free (Tuple elements rest) =
     list_all (\<lambda>e. case e of Element a opt \<Rightarrow> lazy_free a) elements"
| "lazy_free (TypeLiteral pss iss) =
     (list_all (\<lambda>ps. case ps of PropertySignature name a opt \<Rightarrow> lazy_free a) pss \<and>
      list_all (\<lambda>isig. case isig of IndexSignature parameter a \<Rightarrow> lazy_free a) iss)"
| "lazy_free a = True"

text \<open>A value in which \<open>NaN\<close> does not occur, and a differ that finds such a value
  identical to itself.\<close>

fun nan_free :: "jsval \<Rightarrow> bool" where
  "nan_free (VNum x) = (x \<noteq> NaN)"
| "nan_free (VObj r fs) = list_all (\<lambda>(k, v). nan_free v) fs"
| "nan_free (VArr r xs) = list_all nan_free xs"
| "nan_free a = True"

definition reflexive_differ :: "differ \<Rightarrow> bool" where
  "reflexive_differ d = (\<forall>a p. nan_free a \<longrightarrow> d a a = Inr p \<longrightarrow> p = Identical)"

section \<open>Properties\<close>

subsection \<open>Basic facts\<close>

lemma bindE_simps [simp]: "bindE (Inl e) k = Inl e" "bindE (Inr x) k = k x"
  by (simp_all add: bindE_def)

subsection \<open>Pointer codec\<close>

lemma replace_scan_char:
  "replace_scan s [c] rep = concat (map (\<lambda>x. if x = c then rep else [x]) s)"
proof (induction s)
  case Nil
  show ?case by (simp add: replace_scan.simps)
next
  case (Cons x xs)
  show ?case
    by (subst replace_scan.simps) (simp add: Cons.IH)
qed

lemma replaceAll_char:
  "replaceAll s [c] rep = concat (map (\<lambda>x. if x = c then rep else [x]) s)"
  by (simp add: replaceAll_def replace_scan_char)

lemma escape_segment:
  "replaceAll (replaceAll s ''~'' ''~0'') ''/'' ''~1'' = concat (map escape_char s)"
  by (induction s) (simp_all add: replaceAll_char escape_char_def)

lemma pointer_escape: "pointer p = concat (map (\<lambda>s. ''/'' @ concat (map escape_char s)) p)"
  unfolding pointer_def escape_segment ..

lemma record_add_lowering:
  "map_option (\<lambda>d. bindE (d (VObj r []) (VObj r' [(KStr k, VStr v)])) getJSONPatch)
     (go (Suc (Suc n)) f record_string) = Some (Inr [PatchAdd (pointer [k]) (VStr v)])"
  by (simp add: record_string_def typeLiteral_differ_def leaf_differ_def
      expectedKeys_def object_keys_def own_enumerable_def hasOwnProperty_def get_prop_def
      length_prop_def make_def add_def objectOps_def getJSONPatch_def validateString_def
      jp_add_def validateJson_def)

text \<open>
  C9.  The pointer of a path is, segment by segment, a \<open>/\<close> followed by the segment
  in which every \<open>~\<close> is written \<open>~0\<close> and every \<open>/\<close> is written \<open>~1\<close>.  Over a
  string-keyed record, the diff of \<open>{}\<close> against \<open>{"": ""}\<close> lowers to the one entry
  \<open>add\<close> at path \<open>/\<close> with value \<open>""\<close>, and the diff of \<open>{}\<close> against \<open>{"/": ""}\<close>
  to the one entry \<open>add\<close> at path \<open>/~1\<close> with value \<open>""\<close>.
\<close>

theorem pointer_escaping:
  "pointer p = concat (map (\<lambda>s. ''/'' @ concat (map escape_char s)) p) \<and>
   map_option (\<lambda>d. bindE (d (VObj r []) (VObj r' [(KStr '''', VStr '''')])) getJSONPatch)
     (go (Suc (Suc n)) f record_string) = Some (Inr [PatchAdd ''/'' (VStr '''')]) \<and>
   map_option (\<lambda>d. bindE (d (VObj r []) (VObj r' [(KStr ''/'', VStr '''')])) getJSONPatch)
     (go (Suc (Suc n)) f record_string) = Some (Inr [PatchAdd ''/~1'' (VStr '''')])"
proof (intro conjI)
  show "pointer p = concat (map (\<lambda>s. ''/'' @ concat (map escape_char s)) p)"
    by (rule pointer_escape)
  have empty_key: "pointer [''''] = ''/''"
    by (simp add: pointer_escape)
  have slash_key: "pointer [''/''] = ''/~1''"
    by (simp add: pointer_escape escape_char_def)
  show "map_option (\<lambda>d. bindE (d (VObj r []) (VObj r' [(KStr '''', VStr '''')])) getJSONPatch)
     (go (Suc (Suc n)) f record_string) = Some (Inr [PatchAdd ''/'' (VStr '''')])"
    by (simp only: record_add_lowering empty_key)
  show "map_option (\<lambda>d. bindE (d (VObj r []) (VObj r' [(KStr ''/'', VStr '''')])) getJSONPatch)
     (go (Suc (Suc n)) f record_string) = Some (Inr [PatchAdd ''/~1'' (VStr '''')])"
    by (simp only: record_add_lowering slash_key)
qed

subsection \<open>Lowering to JSON Patch\<close>

lemma validateString_simps [simp]:
  "validateString (KStr s) = Inr s" "validateString (KSym s) = Inl (NotAString (KSym s))"
  by (simp_all add: validateString_def)

lemma lower_ok:
  "lowerable sub \<Longrightarrow> jp_entry sub p out = Inr (out @ patch_entries p sub)"
  "lowerable (ObjectOps os) \<Longrightarrow> jp_objectOps os p out = Inr (out @ patch_entries p (ObjectOps os))"
  "lowerable (ArrayOps as) \<Longrightarrow> jp_arrayOps as p out = Inr (out @ patch_entries p (ArrayOps as))"
proof (induction sub p out and os p out and as p out rule: jp_entry_jp_objectOps_jp_arrayOps.induct)
  case (8 key sub ops p out)
  then show ?case
    by (cases key) (simp_all add: lowerable_def is_string_key_def segment_of_def)
next
  case (10 key sub ops p out)
  then show ?case
    by (simp add: lowerable_def)
qed (simp_all add: lowerable_def jp_replace_def jp_add_def jp_remove_def validateJson_def)

lemma path_keys_Cons:
  "path_keys (ObjectOps ((k, sub) # ops)) = k # path_keys sub @ path_keys (ObjectOps ops)"
  "path_keys (ArrayOps ((i, sub) # as)) = path_keys sub @ path_keys (ArrayOps as)"
  by simp_all

lemma emitted_values_Cons:
  "emitted_values (ObjectOps ((k, sub) # ops)) = emitted_values sub @ emitted_values (ObjectOps ops)"
  "emitted_values (ArrayOps ((i, sub) # as)) = emitted_values sub @ emitted_values (ArrayOps as)"
  by simp_all

lemma offending_simps:
  "set (offending (ObjectOps ((k, sub) # ops))) =
     (if is_string_key k then {} else {NotAString k}) \<union> set (offending sub) \<union> set (offending (ObjectOps ops))"
  "set (offending (ArrayOps ((i, sub) # as))) = set (offending sub) \<union> set (offending (ArrayOps as))"
  by (auto simp add: offending_def path_keys_Cons emitted_values_Cons
      simp del: path_keys.simps emitted_values.simps)

lemma lowerable_simps:
  "lowerable (ObjectOps ((k, sub) # ops)) = (is_string_key k \<and> lowerable sub \<and> lowerable (ObjectOps ops))"
  "lowerable (ArrayOps ((i, sub) # as)) = (lowerable sub \<and> lowerable (ArrayOps as))"
  by (auto simp add: lowerable_def path_keys_Cons emitted_values_Cons
      simp del: path_keys.simps emitted_values.simps)

lemma lower_fails:
  "\<not> lowerable sub \<Longrightarrow> \<exists>e \<in> set (offending sub). jp_entry sub p out = Inl e"
  "\<not> lowerable (ObjectOps os) \<Longrightarrow> \<exists>e \<in> set (offending (ObjectOps os)). jp_objectOps os p out = Inl e"
  "\<not> lowerable (ArrayOps as) \<Longrightarrow> \<exists>e \<in> set (offending (ArrayOps as)). jp_arrayOps as p out = Inl e"
proof (induction sub p out and os p out and as p out rule: jp_entry_jp_objectOps_jp_arrayOps.induct)
  case (8 key sub ops p out)
  show ?case
  proof (cases key)
    case (KSym s)
    then show ?thesis by (simp add: offending_simps is_string_key_def)
  next
    case (KStr s)
    show ?thesis
    proof (cases "lowerable sub")
      case False
      with "8.IH"(1) obtain e where "e \<in> set (offending sub)" "jp_entry sub (p @ [s]) out = Inl e"
        by blast
      then show ?thesis using KStr by (auto simp: offending_simps)
    next
      case True
      with "8.prems" KStr have rest: "\<not> lowerable (ObjectOps ops)"
        by (simp add: lowerable_simps is_string_key_def)
      have "jp_entry sub (p @ [s]) out = Inr (out @ patch_entries (p @ [s]) sub)"
        by (rule lower_ok(1)[OF True])
      moreover from "8.IH"(2) rest obtain e where "e \<in> set (offending (ObjectOps ops))"
        "jp_objectOps ops p (out @ patch_entries (p @ [s]) sub) = Inl e"
        by blast
      ultimately show ?thesis using KStr
        by (auto simp: offending_simps)
    qed
  qed
next
  case (10 key sub ops p out)
  show ?case
  proof (cases "lowerable sub")
    case False
    with "10.IH"(1) obtain e where "e \<in> set (offending sub)"
      "jp_entry sub (p @ [string_of_nat key]) out = Inl e"
      by blast
    then show ?thesis by (auto simp: offending_simps)
  next
    case True
    with "10.prems" have rest: "\<not> lowerable (ArrayOps ops)"
      by (simp add: lowerable_simps)
    have "jp_entry sub (p @ [string_of_nat key]) out = Inr (out @ patch_entries (p @ [string_of_nat key]) sub)"
      by (rule lower_ok(1)[OF True])
    moreover from "10.IH"(2) rest obtain e where "e \<in> set (offending (ArrayOps ops))"
      "jp_arrayOps ops p (out @ patch_entries (p @ [string_of_nat key]) sub) = Inl e"
      by blast
    ultimately show ?thesis
      by (auto simp: offending_simps)
  qed
qed (simp_all add: lowerable_def offending_def jp_replace_def jp_add_def jp_remove_def validateJson_def)

text \<open>
  C8.  Lowering is all or nothing.  For an operation tree whose root is not an
  \<open>Add\<close> or a \<open>Remove\<close> (the type \<^verbatim>\<open>Op\<close> of the parameter has neither): when every
  key of an object entry is a string and every value of a \<open>replace\<close> or \<open>add\<close> entry
  is JSON-representable, \<^verbatim>\<open>getJSONPatch\<close> returns the right with the full list of
  entries in traversal order; otherwise it returns a left, never a list, and the error
  names one of the offending keys or values.
\<close>

theorem lowering_all_or_nothing:
  assumes "\<not> is_add_or_remove p"
  shows "if lowerable p
         then getJSONPatch p = Inr (patch_entries [] p)
         else \<exists>e \<in> set (offending p). getJSONPatch p = Inl e"
proof (cases "lowerable p")
  case True
  have "getJSONPatch p = Inr (patch_entries [] p)"
  proof (cases p)
    case (Replace f t)
    with True show ?thesis
      by (simp add: getJSONPatch_def jp_replace_def lowerable_def validateJson_def)
  next
    case (ObjectOps ops)
    with True lower_ok(2)[of ops "[]" "[]"] show ?thesis
      by (simp add: getJSONPatch_def)
  next
    case (ArrayOps ops)
    with True lower_ok(3)[of ops "[]" "[]"] show ?thesis
      by (simp add: getJSONPatch_def)
  qed (use assms in \<open>simp_all add: getJSONPatch_def is_add_or_remove_def\<close>)
  with True show ?thesis by simp
next
  case False
  have "\<exists>e \<in> set (offending p). getJSONPatch p = Inl e"
  proof (cases p)
    case (Replace f t)
    with lower_fails(1)[OF False, of "[]" "[]"] show ?thesis
      by (simp add: getJSONPatch_def)
  next
    case (ObjectOps ops)
    with lower_fails(1)[OF False, of "[]" "[]"] show ?thesis
      by (simp add: getJSONPatch_def)
  next
    case (ArrayOps ops)
    with lower_fails(1)[OF False, of "[]" "[]"] show ?thesis
      by (simp add: getJSONPatch_def)
  qed (use assms False in \<open>simp_all add: getJSONPatch_def is_add_or_remove_def lowerable_def\<close>)
  with False show ?thesis by simp
qed

theorem lowering_all_or_nothing_witness:
  "getJSONPatch (ObjectOps [(KStr ''a'', Replace (VStr ''v'') (VNum (Fin 1))), (KStr ''b'', Remove VNull)])
     = Inr [PatchReplace ''/a'' (VNum (Fin 1)), PatchRemove ''/b''] \<and>
   getJSONPatch (ObjectOps [(KStr ''a'', Add (VStr ''v'')), (KSym ''s'', Add (VStr ''v''))])
     = Inl (NotAString (KSym ''s'')) \<and>
   getJSONPatch (ArrayOps [(0, Replace VNull (VStr ''v'')), (1, Replace VNull (VFun 0))])
     = Inl (NotJson (VFun 0)) \<and>
   getJSONPatch (Replace (VNum (Fin 0)) (VNum NaN)) = Inl (NotJson (VNum NaN)) \<and>
   getJSONPatch (Replace (VNum (Fin 0)) (VNum NegZero)) = Inr [PatchReplace [] (VNum NegZero)]"
proof (intro conjI)
  show "getJSONPatch (ObjectOps [(KStr ''a'', Replace (VStr ''v'') (VNum (Fin 1))), (KStr ''b'', Remove VNull)])
     = Inr [PatchReplace ''/a'' (VNum (Fin 1)), PatchRemove ''/b'']"
    using lowering_all_or_nothing
      [of "ObjectOps [(KStr ''a'', Replace (VStr ''v'') (VNum (Fin 1))), (KStr ''b'', Remove VNull)]"]
    by (simp add: is_add_or_remove_def lowerable_def is_string_key_def segment_of_def pointer_escape
        escape_char_def)
  show "getJSONPatch (ObjectOps [(KStr ''a'', Add (VStr ''v'')), (KSym ''s'', Add (VStr ''v''))])
     = Inl (NotAString (KSym ''s''))"
    using lowering_all_or_nothing
      [of "ObjectOps [(KStr ''a'', Add (VStr ''v'')), (KSym ''s'', Add (VStr ''v''))]"]
    by (simp add: is_add_or_remove_def lowerable_def is_string_key_def offending_def)
  show "getJSONPatch (ArrayOps [(0, Replace VNull (VStr ''v'')), (1, Replace VNull (VFun 0))])
     = Inl (NotJson (VFun 0))"
    using lowering_all_or_nothing
      [of "ArrayOps [(0, Replace VNull (VStr ''v'')), (1, Replace VNull (VFun 0))]"]
    by (simp add: is_add_or_remove_def lowerable_def is_string_key_def offending_def)
  show "getJSONPatch (Replace (VNum (Fin 0)) (VNum NaN)) = Inl (NotJson (VNum NaN))"
    using lowering_all_or_nothing [of "Replace (VNum (Fin 0)) (VNum NaN)"]
    by (simp add: is_add_or_remove_def lowerable_def offending_def)
  show "getJSONPatch (Replace (VNum (Fin 0)) (VNum NegZero)) = Inr [PatchReplace [] (VNum NegZero)]"
    using lowering_all_or_nothing [of "Replace (VNum (Fin 0)) (VNum NegZero)"]
    by (simp add: is_add_or_remove_def lowerable_def pointer_def)
qed

subsection \<open>The differ of a record\<close>

lemma hasOwnProperty_own_prop:
  "not_nullish a \<Longrightarrow> hasOwnProperty a name = Inr (own_prop a name \<noteq> None)"
  by (auto simp add: hasOwnProperty_def own_prop_def not_nullish_def map_of_eq_None_iff
      simp del: map_of_append)

lemma get_prop_own_prop:
  "not_nullish a \<Longrightarrow> get_prop a name = Inr (case own_prop a name of None \<Rightarrow> VUndefined | Some v \<Rightarrow> v)"
  by (simp add: get_prop_def own_prop_def not_nullish_def del: map_of_append)

lemma isIdentical_iff: "isIdentical p = (p = Identical)"
  by (cases p) (simp_all add: isIdentical_def)

lemma collect_append:
  "collect (ms @ ns) =
     (case collect ms of Inl e \<Rightarrow> Inl e
      | Inr xs \<Rightarrow> (case collect ns of Inl e \<Rightarrow> Inl e | Inr ys \<Rightarrow> Inr (xs @ ys)))"
  by (induction ms) (auto split: sum.splits)

lemma propertySignatures_loop_collect:
  assumes "not_nullish from" "not_nullish to"
  shows "propertySignatures_loop nds from to ops =
     (case collect (map (\<lambda>(name, differ). field_entry from to differ name) nds) of
        Inl e \<Rightarrow> Inl e | Inr es \<Rightarrow> Inr (ops @ es))"
proof (induction nds arbitrary: ops)
  case Nil
  show ?case by simp
next
  case (Cons nd nds)
  obtain name differ where nd: "nd = (name, differ)" by (cases nd)
  show ?case
    unfolding nd
    by (cases "own_prop from name"; cases "own_prop to name")
       (auto simp: Cons.IH hasOwnProperty_own_prop[OF assms(1)] hasOwnProperty_own_prop[OF assms(2)]
         get_prop_own_prop[OF assms(1)] get_prop_own_prop[OF assms(2)] field_entry_def
         isIdentical_iff add_def remove_def split: sum.splits)
qed

lemma collect_map_append:
  "collect (map g ks) = Inr es \<Longrightarrow> collect (map g ks') = Inr es' \<Longrightarrow>
   collect (map g (ks @ ks')) = Inr (es @ es')"
  by (simp add: collect_append)

lemma fromKeys_loop_collect:
  assumes "not_nullish from" "not_nullish to"
  shows "\<forall>k \<in> set ks. own_prop from k \<noteq> None \<Longrightarrow>
     fromKeys_loop expected differ ks from to ops =
     (case collect (map (field_entry from to differ)
                     (filter (\<lambda>k. k \<notin> set (map fst expected)) ks)) of
        Inl e \<Rightarrow> Inl e | Inr es \<Rightarrow> Inr (ops @ es))"
proof (induction ks arbitrary: ops)
  case Nil
  show ?case by simp
next
  case (Cons name ks)
  from Cons.prems obtain x where x: "own_prop from name = Some x" by auto
  from Cons.prems have rest: "\<forall>k \<in> set ks. own_prop from k \<noteq> None" by simp
  show ?case
    by (cases "own_prop to name")
       (auto simp: Cons.IH[OF rest] x hasOwnProperty_own_prop[OF assms(2)]
         get_prop_own_prop[OF assms(1)] get_prop_own_prop[OF assms(2)] field_entry_def
         isIdentical_iff remove_def split: sum.splits)
qed

lemma toKeys_loop_collect:
  assumes "not_nullish from" "not_nullish to"
  shows "\<forall>k \<in> set ks. own_prop to k \<noteq> None \<Longrightarrow>
     toKeys_loop expected ks from to ops =
     (case collect (map (field_entry from to differ)
                     (filter (\<lambda>k. k \<notin> set (map fst expected) \<and> own_prop from k = None) ks)) of
        Inl e \<Rightarrow> Inl e | Inr es \<Rightarrow> Inr (ops @ es))"
proof (induction ks arbitrary: ops)
  case Nil
  show ?case by simp
next
  case (Cons name ks)
  from Cons.prems obtain y where y: "own_prop to name = Some y" by auto
  from Cons.prems have rest: "\<forall>k \<in> set ks. own_prop to k \<noteq> None" by simp
  show ?case
    by (cases "own_prop from name")
       (auto simp: Cons.IH[OF rest] y hasOwnProperty_own_prop[OF assms(1)]
         get_prop_own_prop[OF assms(2)] field_entry_def add_def split: sum.splits)
qed

lemma object_keys_own:
  "object_keys a = Inr ks \<Longrightarrow> k \<in> set ks \<Longrightarrow> own_prop a k \<noteq> None"
  by (auto simp: object_keys_def own_prop_def map_of_eq_None_iff split: if_splits)

lemma object_symbols_own:
  "object_symbols a = Inr ks \<Longrightarrow> k \<in> set ks \<Longrightarrow> own_prop a k \<noteq> None"
  by (auto simp: object_symbols_def own_prop_def map_of_eq_None_iff split: if_splits)

lemma getKeys_own:
  "getKeysForIndexSignature a parameter = Inr ks \<Longrightarrow> k \<in> set ks \<Longrightarrow> own_prop a k \<noteq> None"
  by (induction a parameter rule: getKeysForIndexSignature.induct)
     (simp_all add: object_keys_own object_symbols_own)

lemma getKeys_object_indep:
  "not_nullish a \<Longrightarrow> not_nullish b \<Longrightarrow>
   getKeysForIndexSignature a parameter = Inl e \<Longrightarrow> getKeysForIndexSignature b parameter = Inl e"
  by (induction a parameter rule: getKeysForIndexSignature.induct)
     (simp_all add: object_keys_def object_symbols_def not_nullish_def)

lemma insert_prop_keys: "fst ` set (insert_prop fs k v) = insert k (fst ` set fs)"
  by (induction fs) force+

lemma update_prop_keys: "map fst (update_prop fs k v) = map fst fs"
  by (induction fs) (auto simp: update_prop_def)

lemma set_prop_keys:
  assumes "k \<noteq> KStr ''__proto__''"
  shows "fst ` set (fst (set_prop out k v)) = insert k (fst ` set (fst out))"
proof (cases out)
  case (Pair fs p)
  have "fst ` set (update_prop fs k v) = fst ` set fs"
    using update_prop_keys[of fs k v] by (metis set_map)
  with assms Pair show ?thesis
    by (auto simp: set_prop_def insert_prop_keys)
qed

lemma expectedKeys_names:
  assumes "KStr ''__proto__'' \<notin> set (map ps_name pss)"
  shows "set (map fst (expectedKeys pss)) = set (map ps_name pss)"
proof -
  have "KStr ''__proto__'' \<notin> set (map ps_name pss) \<Longrightarrow>
      fst ` set (fst (fold (\<lambda>ps acc. set_prop acc (ps_name ps) VNull) pss acc)) =
      fst ` set (fst acc) \<union> set (map ps_name pss)" for acc
  proof (induction pss arbitrary: acc)
    case Nil
    show ?case by simp
  next
    case (Cons ps pss)
    from Cons.prems have k: "ps_name ps \<noteq> KStr ''__proto__''"
      and rest: "KStr ''__proto__'' \<notin> set (map ps_name pss)"
      by auto
    have "fst ` set (fst (fold (\<lambda>ps acc. set_prop acc (ps_name ps) VNull) (ps # pss) acc)) =
        fst ` set (fst (set_prop acc (ps_name ps) VNull)) \<union> set (map ps_name pss)"
      using Cons.IH[OF rest, of "set_prop acc (ps_name ps) VNull"] by simp
    also have "\<dots> = fst ` set (fst acc) \<union> set (map ps_name (ps # pss))"
      by (simp only: set_prop_keys[OF k]) simp
    finally show ?case .
  qed
  from this[OF assms, of "([], ObjectPrototype)"] show ?thesis by (simp add: expectedKeys_def)
qed

lemma indexSignatures_loop_collect:
  assumes "not_nullish from" "not_nullish to" "set (map fst expected) = set declared"
  shows "indexSignatures_loop expected pds from to ops =
     (case collect (map (\<lambda>(parameter, differ). index_entries from to declared parameter differ) pds) of
        Inl e \<Rightarrow> Inl e | Inr es \<Rightarrow> Inr (ops @ es))"
proof (induction pds arbitrary: ops)
  case Nil
  show ?case by simp
next
  case (Cons pd pds)
  obtain parameter differ where pd: "pd = (parameter, differ)" by (cases pd)
  show ?case
  proof (cases "getKeysForIndexSignature from parameter")
    case (Inl e)
    then show ?thesis by (simp add: pd index_entries_def)
  next
    case fromKeys: (Inr fromKeys)
    show ?thesis
    proof (cases "getKeysForIndexSignature to parameter")
      case (Inl e)
      from getKeys_object_indep[OF assms(2) assms(1) Inl] fromKeys show ?thesis by simp
    next
      case toKeys: (Inr toKeys)
      have f: "\<forall>k \<in> set fromKeys. own_prop from k \<noteq> None"
        using getKeys_own[OF fromKeys] by blast
      have t: "\<forall>k \<in> set toKeys. own_prop to k \<noteq> None"
        using getKeys_own[OF toKeys] by blast
      have e: "fst ` set expected = set declared"
        using assms(3) by simp
      show ?thesis
        by (simp add: pd index_entries_def fromKeys toKeys
            fromKeys_loop_collect[OF assms(1,2) f]
            toKeys_loop_collect[OF assms(1,2) t, where differ = differ]
            e collect_append Cons.IH split: sum.splits)
    qed
  qed
qed

lemma typeLiteral_differ_entries:
  assumes "not_nullish from" "not_nullish to" "length pds = length pss" "length ids = length iss"
    and "KStr ''__proto__'' \<notin> set (map ps_name pss)"
  shows "typeLiteral_differ pss iss pds ids from to =
     (case record_entries from to pss iss pds ids of
        Inl e \<Rightarrow> Inl e
      | Inr es \<Rightarrow> Inr (if es = [] then Identical else ObjectOps es))"
proof -
  have names: "map (\<lambda>(name, differ). field_entry from to differ name) (zip (map ps_name pss) pds)
      = declared_entries from to pss pds"
    by (simp add: declared_entries_def zip_map1 case_prod_unfold)
  have params: "map (\<lambda>(parameter, differ). index_entries from to (map ps_name pss) parameter differ)
        (zip (map is_parameter iss) ids)
      = map (\<lambda>(isig, differ). index_entries from to (map ps_name pss) (is_parameter isig) differ)
          (zip iss ids)"
    by (simp add: zip_map1 case_prod_unfold)
  show ?thesis
    by (cases "ids = []")
       (auto simp: typeLiteral_differ_def record_entries_def collect_append
         propertySignatures_loop_collect[OF assms(1,2)] names params
         indexSignatures_loop_collect[OF assms(1,2) expectedKeys_names[OF assms(5)]]
         make_def identical_def objectOps_def split: sum.splits)
qed

lemma those_map_length: "those (map g xs) = Some ys \<Longrightarrow> length ys = length xs"
  by (induction xs arbitrary: ys) (auto split: option.splits)

text \<open>
  The differ compiled for a record shape none of whose declared fields is named
  \<^verbatim>\<open>__proto__\<close>, on two values that are not \<^verbatim>\<open>undefined\<close> or \<^verbatim>\<open>null\<close>: its
  entries are, for each declared field in declaration order, the entry of the recursive
  diff when the field is present in both values and the diff is not identical,
  \<open>Remove (from[name])\<close> when it is present only in \<open>from\<close>, \<open>Add (to[name])\<close> when it
  is present only in \<open>to\<close>; the result is \<open>ObjectOps\<close> of the entries when there is one
  and \<open>Identical\<close> otherwise.  When the shape has index signatures as well, the entries
  of their keys, by the same rule, follow the entries of the declared fields.  A recursive
  diff that throws ends the diff of the record: the differ throws what it throws.
\<close>

lemma record_diff_entries:
  assumes "go (Suc n) f (TypeLiteral pss iss) = Some d"
    and "not_nullish from" and "not_nullish to"
    and "KStr ''__proto__'' \<notin> set (map ps_name pss)"
  shows "\<exists>pds ids.
      those (map (\<lambda>ps. go n f (ps_type ps)) pss) = Some pds \<and>
      those (map (\<lambda>is. go n f (is_type is)) iss) = Some ids \<and>
      d from to =
        (case collect (declared_entries from to pss pds @
                map (\<lambda>(isig, differ). index_entries from to (map ps_name pss) (is_parameter isig) differ)
                  (zip iss ids)) of
           Inl e \<Rightarrow> Inl e
         | Inr entries \<Rightarrow> Inr (if entries = [] then Identical else ObjectOps entries)) \<and>
      (iss = [] \<longrightarrow>
         d from to =
           (case collect (declared_entries from to pss pds) of
              Inl e \<Rightarrow> Inl e
            | Inr entries \<Rightarrow> Inr (if entries = [] then Identical else ObjectOps entries)))"
proof -
  from assms(1) obtain pds ids where
    pds: "those (map (\<lambda>ps. go n f (ps_type ps)) pss) = Some pds" and
    ids: "those (map (\<lambda>is. go n f (is_type is)) iss) = Some ids" and
    d: "d = typeLiteral_differ pss iss pds ids"
    by (auto split: option.splits)
  from typeLiteral_differ_entries[OF assms(2,3) those_map_length[OF pds] those_map_length[OF ids] assms(4)]
  have general: "d from to =
        (case collect (declared_entries from to pss pds @
                map (\<lambda>(isig, differ). index_entries from to (map ps_name pss) (is_parameter isig) differ)
                  (zip iss ids)) of
           Inl e \<Rightarrow> Inl e
         | Inr es \<Rightarrow> Inr (if es = [] then Identical else ObjectOps es))"
    by (simp add: d record_entries_def)
  then have "iss = [] \<longrightarrow>
         d from to =
           (case collect (declared_entries from to pss pds) of
              Inl e \<Rightarrow> Inl e
            | Inr entries \<Rightarrow> Inr (if entries = [] then Identical else ObjectOps entries))"
    by simp
  with pds ids general show ?thesis
    by blast
qed

lemma record_diff_entries_example:
  "map_option
     (\<lambda>d. d (VObj 0 [(KStr ''a'', VStr ''x''), (KStr ''b'', VNum (Fin 1))])
            (VObj 1 [(KStr ''a'', VStr ''y''), (KStr ''c'', VStr ''z'')]))
     (go (Suc (Suc 0)) (\<lambda>t. NeverKeyword) struct_abc)
   = Some (Inr (ObjectOps [(KStr ''a'', Replace (VStr ''x'') (VStr ''y'')),
                           (KStr ''b'', Remove (VNum (Fin 1))),
                           (KStr ''c'', Add (VStr ''z''))]))"
  by (simp add: struct_abc_def typeLiteral_differ_def hasOwnProperty_def get_prop_def
      own_enumerable_def length_prop_def leaf_differ_def number_differ_def strict_equals_def
      object_is_def make_def add_def remove_def replace_def identical_def objectOps_def
      isIdentical_def)

text \<open>
  C7.  The record differ does not return on every pair of values of its shape.  For
  \<^verbatim>\<open>S.struct({ t: pipe(S.tuple(), S.optionalElement(S.struct({ b: S.string }))) })\<close>
  and the values \<open>{t: []}\<close> and \<open>{t: [{b: "x"}]}\<close> the field \<open>t\<close> is present in
  both, so the differ of the field runs; it is the differ of the tuple, which hands
  \<open>from[0]\<close>, \<^verbatim>\<open>undefined\<close>, to the differ of the inner record, and that one throws a
  \<^verbatim>\<open>TypeError\<close> where it asks \<^verbatim>\<open>undefined\<close> for its own property \<open>b\<close>.  The
  differ of the record throws it on: there is no entry for \<open>t\<close>, no \<open>ObjectOps\<close> and no
  \<open>Identical\<close>.
\<close>

theorem record_differ_throws_on_absent_element:
  "map_option
     (\<lambda>d. d (VObj 0 [(KStr ''t'', VArr 1 [])])
            (VObj 2 [(KStr ''t'', VArr 3 [VObj 4 [(KStr ''b'', VStr ''x'')]])]))
     (go (Suc (Suc (Suc (Suc 0)))) (\<lambda>t. NeverKeyword) struct_optional_element)
   = Some (Inl TypeError)"
  by (simp add: struct_optional_element_def typeLiteral_differ_def tuple_differ_def
      hasOwnProperty_def get_prop_def get_index_def own_enumerable_def length_prop_def)

text \<open>A second way for the entries to differ from the rule: a declared field named
  \<^verbatim>\<open>__proto__\<close> is no own key of \<^verbatim>\<open>expectedKeys\<close>, so a shape that has an index
  signature as well emits the entry of that field twice.\<close>

lemma declared_proto_emitted_twice:
  "expectedKeys [PropertySignature (KStr ''__proto__'') StringKeyword True] = [] \<and>
   map_option
     (\<lambda>d. d (VObj 0 []) (VObj 1 [(KStr ''__proto__'', VStr ''x'')]))
     (go (Suc (Suc 0)) (\<lambda>t. NeverKeyword) struct_proto_record)
   = Some (Inr (ObjectOps [(KStr ''__proto__'', Add (VStr ''x'')),
                           (KStr ''__proto__'', Add (VStr ''x''))]))"
  by (simp add: struct_proto_record_def expectedKeys_def set_prop_def inherits_setter_def
      typeLiteral_differ_def
      hasOwnProperty_def get_prop_def own_enumerable_def length_prop_def object_keys_def
      make_def add_def objectOps_def)

subsection \<open>The differ of a tuple\<close>

lemma bindE_Inr_iff: "bindE m k = Inr r \<longleftrightarrow> (\<exists>x. m = Inr x \<and> k x = Inr r)"
  by (cases m) simp_all

lemma get_index_elem: "not_nullish a \<Longrightarrow> get_index a i = Inr (elem a i)"
  by (cases a) (simp_all add: get_index_def elem_def not_nullish_def)

lemma tuple_loop_collect:
  assumes "not_nullish from" "not_nullish to"
  shows "tuple_loop ds i from to ops =
     (case collect (map (\<lambda>(j, differ). position_entry from to differ j) (zip [i..<i + length ds] ds)) of
        Inl e \<Rightarrow> Inl e | Inr es \<Rightarrow> Inr (ops @ es))"
proof (induction ds arbitrary: i ops)
  case Nil
  show ?case by simp
next
  case (Cons differ ds)
  have "[i..<i + length (differ # ds)] = i # [Suc i..<Suc i + length ds]"
    by (simp add: upt_rec)
  then show ?case
    by (auto simp: Cons.IH get_index_elem[OF assms(1)] get_index_elem[OF assms(2)]
        position_entry_def isIdentical_iff split: sum.splits)
qed

lemma tuple_differ_entries:
  assumes "not_nullish from" "not_nullish to"
  shows "tuple_differ ds from to =
     (case collect (map (\<lambda>(j, differ). position_entry from to differ j) (zip [0..<length ds] ds)) of
        Inl e \<Rightarrow> Inl e | Inr es \<Rightarrow> Inr (if es = [] then Identical else ArrayOps es))"
  using tuple_loop_collect[OF assms, of ds 0 "[]"]
  by (simp add: tuple_differ_def make_def arrayOps_def identical_def split: sum.splits)

lemma tuple_loop_positional:
  assumes "\<forall>d \<in> set ds. sound_differ d"
  shows "tuple_loop ds i from to ops = Inr res \<Longrightarrow>
     list_all (\<lambda>(i, sub). \<not> is_add_or_remove sub \<and> positional sub) ops \<Longrightarrow>
     list_all (\<lambda>(i, sub). \<not> is_add_or_remove sub \<and> positional sub) res"
  using assms
proof (induction ds arbitrary: i ops)
  case Nil
  then show ?case by simp
next
  case (Cons d ds)
  from Cons.prems(1) obtain x y p where
    p: "d x y = Inr p" and
    rest: "tuple_loop ds (Suc i) from to (if \<not> isIdentical p then ops @ [(i, p)] else ops) = Inr res"
    by (auto simp: bindE_Inr_iff)
  from Cons.prems(3) p have "root_positional p"
    by (auto simp: sound_differ_def)
  with Cons.prems(2) have
    "list_all (\<lambda>(i, sub). \<not> is_add_or_remove sub \<and> positional sub)
       (if \<not> isIdentical p then ops @ [(i, p)] else ops)"
    by (simp add: root_positional_def)
  from Cons.IH[OF rest this] Cons.prems(3) show ?case by simp
qed

lemma tuple_differ_sound:
  assumes "\<forall>d \<in> set ds. sound_differ d"
  shows "sound_differ (tuple_differ ds)"
  unfolding sound_differ_def
proof (intro allI impI)
  fix x y p
  assume "tuple_differ ds x y = Inr p"
  then obtain res where res: "tuple_loop ds 0 x y [] = Inr res"
    and p: "p = (if res \<noteq> [] then ArrayOps res else Identical)"
    by (auto simp: tuple_differ_def bindE_Inr_iff make_def arrayOps_def identical_def)
  from tuple_loop_positional[OF assms res] have
    "list_all (\<lambda>(i, sub). \<not> is_add_or_remove sub \<and> positional sub) res" by simp
  with p show "root_positional p"
    by (simp add: root_positional_def is_add_or_remove_def)
qed

lemma positional_snoc:
  "list_all (\<lambda>(k, sub). positional sub) (ops @ [(name, p)]) =
     (list_all (\<lambda>(k, sub). positional sub) ops \<and> positional p)"
  by simp

lemma propertySignatures_loop_positional:
  assumes "\<forall>d \<in> snd ` set nds. sound_differ d"
  shows "propertySignatures_loop nds from to ops = Inr res \<Longrightarrow>
     list_all (\<lambda>(k, sub). positional sub) ops \<Longrightarrow>
     list_all (\<lambda>(k, sub). positional sub) res"
  using assms
proof (induction nds arbitrary: ops)
  case Nil
  then show ?case by simp
next
  case (Cons nd nds)
  obtain name d where nd: "nd = (name, d)" by (cases nd)
  from Cons.prems(3) nd have d: "\<And>x y p. d x y = Inr p \<Longrightarrow> positional p"
    and ds: "\<forall>d \<in> snd ` set nds. sound_differ d"
    by (auto simp: sound_differ_def root_positional_def)
  from Cons.prems(1) obtain ops' where
    rest: "propertySignatures_loop nds from to ops' = Inr res" and
    ops': "list_all (\<lambda>(k, sub). positional sub) ops'"
    using Cons.prems(2) d
    by (auto simp: nd bindE_Inr_iff add_def remove_def split: if_splits)
  from Cons.IH[OF rest ops' ds] show ?case .
qed

lemma fromKeys_loop_positional:
  assumes "sound_differ d"
  shows "fromKeys_loop expected d ks from to ops = Inr res \<Longrightarrow>
     list_all (\<lambda>(k, sub). positional sub) ops \<Longrightarrow>
     list_all (\<lambda>(k, sub). positional sub) res"
proof (induction ks arbitrary: ops)
  case Nil
  then show ?case by simp
next
  case (Cons name ks)
  from assms have d: "\<And>x y p. d x y = Inr p \<Longrightarrow> positional p"
    by (auto simp: sound_differ_def root_positional_def)
  from Cons.prems(1) obtain ops' where
    rest: "fromKeys_loop expected d ks from to ops' = Inr res" and
    ops': "list_all (\<lambda>(k, sub). positional sub) ops'"
    using Cons.prems(2) d
    by (auto simp: bindE_Inr_iff remove_def split: if_splits)
  from Cons.IH[OF rest ops'] show ?case .
qed

lemma toKeys_loop_positional:
  "toKeys_loop expected ks from to ops = Inr res \<Longrightarrow>
     list_all (\<lambda>(k, sub). positional sub) ops \<Longrightarrow>
     list_all (\<lambda>(k, sub). positional sub) res"
proof (induction ks arbitrary: ops)
  case Nil
  then show ?case by simp
next
  case (Cons name ks)
  from Cons.prems(1) obtain ops' where
    rest: "toKeys_loop expected ks from to ops' = Inr res" and
    ops': "list_all (\<lambda>(k, sub). positional sub) ops'"
    using Cons.prems(2)
    by (auto simp: bindE_Inr_iff add_def split: if_splits)
  from Cons.IH[OF rest ops'] show ?case .
qed

lemma indexSignatures_loop_positional:
  assumes "\<forall>d \<in> snd ` set pds. sound_differ d"
  shows "indexSignatures_loop expected pds from to ops = Inr res \<Longrightarrow>
     list_all (\<lambda>(k, sub). positional sub) ops \<Longrightarrow>
     list_all (\<lambda>(k, sub). positional sub) res"
  using assms
proof (induction pds arbitrary: ops)
  case Nil
  then show ?case by simp
next
  case (Cons pd pds)
  obtain parameter d where pd: "pd = (parameter, d)" by (cases pd)
  from Cons.prems(3) pd have d: "sound_differ d"
    and ds: "\<forall>d \<in> snd ` set pds. sound_differ d"
    by auto
  from Cons.prems(1) obtain fromKeys ops1 toKeys ops2 where
    l1: "fromKeys_loop expected d fromKeys from to ops = Inr ops1" and
    l2: "toKeys_loop expected toKeys from to ops1 = Inr ops2" and
    rest: "indexSignatures_loop expected pds from to ops2 = Inr res"
    by (auto simp: pd bindE_Inr_iff)
  from toKeys_loop_positional[OF l2 fromKeys_loop_positional[OF d l1 Cons.prems(2)]]
  have "list_all (\<lambda>(k, sub). positional sub) ops2" .
  from Cons.IH[OF rest this ds] show ?case .
qed

lemma typeLiteral_differ_sound:
  assumes "\<forall>d \<in> set pds. sound_differ d" "\<forall>d \<in> set ids. sound_differ d"
  shows "sound_differ (typeLiteral_differ pss iss pds ids)"
  unfolding sound_differ_def
proof (intro allI impI)
  fix x y p
  assume run: "typeLiteral_differ pss iss pds ids x y = Inr p"
  then obtain ops1 ops where
    l1: "propertySignatures_loop (zip (map ps_name pss) pds) x y [] = Inr ops1" and
    l2: "(if length ids > 0
          then indexSignatures_loop (expectedKeys pss) (zip (map is_parameter iss) ids) x y ops1
          else Inr ops1) = Inr ops" and
    p: "p = (if ops \<noteq> [] then ObjectOps ops else Identical)"
    by (auto simp: typeLiteral_differ_def bindE_Inr_iff make_def objectOps_def identical_def)
  have s1: "\<forall>d \<in> snd ` set (zip (map ps_name pss) pds). sound_differ d"
    using assms(1) by (auto dest: set_zip_rightD)
  have s2: "\<forall>d \<in> snd ` set (zip (map is_parameter iss) ids). sound_differ d"
    using assms(2) by (auto dest: set_zip_rightD)
  from propertySignatures_loop_positional[OF s1 l1]
  have o1: "list_all (\<lambda>(k, sub). positional sub) ops1" by simp
  have "list_all (\<lambda>(k, sub). positional sub) ops"
  proof (cases "length ids > 0")
    case True
    with l2 indexSignatures_loop_positional[OF s2 _ o1] show ?thesis by simp
  next
    case False
    with l2 o1 show ?thesis by simp
  qed
  with p show "root_positional p"
    by (simp add: root_positional_def is_add_or_remove_def)
qed

lemma leaf_differs_sound: "sound_differ leaf_differ" "sound_differ number_differ"
  by (auto simp: sound_differ_def leaf_differ_def number_differ_def make_def identical_def
      replace_def root_positional_def is_add_or_remove_def)

lemma those_map_Some_all:
  "those (map g xs) = Some ys \<Longrightarrow> y \<in> set ys \<Longrightarrow> \<exists>x \<in> set xs. g x = Some y"
  by (induction xs arbitrary: ys) (auto split: option.splits)

lemma go_sound: "go n f a = Some d \<Longrightarrow> sound_differ d"
proof (induction n arbitrary: a d)
  case 0
  then show ?case by simp
next
  case (Suc n)
  show ?case
  proof (cases a)
    case (Tuple els rest)
    with Suc.prems obtain ds where ds: "those (map (\<lambda>e. go n f (el_type e)) els) = Some ds"
      and d: "d = tuple_differ ds"
      by (auto split: option.splits)
    have "\<forall>d \<in> set ds. sound_differ d"
      using those_map_Some_all[OF ds] Suc.IH by blast
    with d show ?thesis by (simp add: tuple_differ_sound)
  next
    case (TypeLiteral pss iss)
    with Suc.prems obtain pds ids where
      pds: "those (map (\<lambda>ps. go n f (ps_type ps)) pss) = Some pds" and
      ids: "those (map (\<lambda>is. go n f (is_type is)) iss) = Some ids" and
      d: "d = typeLiteral_differ pss iss pds ids"
      by (auto split: option.splits)
    have "\<forall>d \<in> set pds. sound_differ d" "\<forall>d \<in> set ids. sound_differ d"
      using those_map_Some_all[OF pds] those_map_Some_all[OF ids] Suc.IH by blast+
    with d show ?thesis by (simp add: typeLiteral_differ_sound)
  next
    case (Refinement base)
    with Suc.prems Suc.IH show ?thesis by simp
  next
    case (Lazy t)
    with Suc.prems Suc.IH show ?thesis by simp
  qed (use Suc.prems in \<open>auto simp: leaf_differs_sound\<close>)
qed

lemma leaf_absent_side:
  assumes "differ = leaf_differ \<or> differ = number_differ" "elem a i = VUndefined" "elem b i \<noteq> VUndefined"
  shows "position_entry a b differ i = Inr [(i, Replace VUndefined (elem b i))]"
    and "position_entry b a differ i = Inr [(i, Replace (elem b i) VUndefined)]"
  using assms
  by (cases "elem b i";
      auto simp: position_entry_def leaf_differ_def number_differ_def strict_equals_def
        object_is_def make_def replace_def identical_def)+

lemma leaf_position_returns:
  assumes "differ = leaf_differ \<or> differ = number_differ"
  shows "\<exists>es. position_entry a b differ i = Inr es"
  using assms
  by (auto simp: position_entry_def leaf_differ_def number_differ_def make_def)

lemma go_leaf_type:
  "leaf_type n f a \<Longrightarrow> go n f a = Some d \<Longrightarrow> d = leaf_differ \<or> d = number_differ"
proof (induction n arbitrary: a)
  case 0
  then show ?case by simp
next
  case (Suc n)
  show ?case
  proof (cases a)
    case (Refinement base)
    with Suc.prems Suc.IH[of base] show ?thesis by simp
  next
    case (Lazy t)
    with Suc.prems Suc.IH[of "f t"] show ?thesis by simp
  qed (use Suc.prems in auto)
qed

lemma those_map_nth:
  "those (map g xs) = Some ys \<Longrightarrow> i < length xs \<Longrightarrow> g (xs ! i) = Some (ys ! i)"
proof (induction xs arbitrary: ys i)
  case Nil
  then show ?case by simp
next
  case (Cons x xs)
  then show ?case
    by (cases i) (auto split: option.splits)
qed

lemma collect_returns:
  "\<forall>m \<in> set ms. \<exists>xs. m = Inr xs \<Longrightarrow> \<exists>es. collect ms = Inr es"
  by (induction ms) (auto split: sum.splits)

lemma collect_member:
  "collect ms = Inr es \<Longrightarrow> Inr xs \<in> set ms \<Longrightarrow> set xs \<subseteq> set es"
  by (induction ms arbitrary: es) (auto split: sum.splits)

lemma tuple_entry_member:
  assumes "not_nullish x" "not_nullish y" "i < length ds"
    and entry: "position_entry x y (ds ! i) i = Inr [(i, q)]"
    and run: "tuple_differ ds x y = Inr p"
  shows "\<exists>entries. p = ArrayOps entries \<and> (i, q) \<in> set entries"
proof -
  let ?ms = "map (\<lambda>(j, differ). position_entry x y differ j) (zip [0..<length ds] ds)"
  from run tuple_differ_entries[OF assms(1,2), of ds] obtain es where
    es: "collect ?ms = Inr es" and p: "p = (if es = [] then Identical else ArrayOps es)"
    by (auto split: sum.splits)
  have "(i, ds ! i) \<in> set (zip [0..<length ds] ds)"
    using assms(3) by (auto simp: set_zip intro!: exI[of _ i])
  then have "position_entry x y (ds ! i) i \<in> set ?ms"
    by force
  with entry have "Inr [(i, q)] \<in> set ?ms" by simp
  from collect_member[OF es this] have "(i, q) \<in> set es" by simp
  with p show ?thesis by auto
qed

text \<open>
  C10 (as amended).  The differ compiled for a tuple shape, on two values that are not
  \<^verbatim>\<open>undefined\<close> or \<^verbatim>\<open>null\<close>, compares each declared position \<open>i\<close> as \<open>from[i]\<close>
  against \<open>to[i]\<close>, an absent position read as \<^verbatim>\<open>undefined\<close>, with the differ compiled
  for the type of the position.  Where each of these returns, its result is \<open>Identical\<close>
  or the \<open>ArrayOps\<close> of the entries of the positions that differ; they all return when
  every position has a leaf type.  No entry of an \<open>ArrayOps\<close> node it produces, at any
  depth, is an \<open>Add\<close> or a \<open>Remove\<close>; these occur only as entries of \<open>ObjectOps\<close>
  nodes, under a position of record type.  At a position of leaf type (a type that is,
  under refinements and behind lazy references, neither a tuple nor a record) that only
  one of the two values populates, with a value other than \<^verbatim>\<open>undefined\<close>, the result
  has the entry \<open>Replace\<close> with \<^verbatim>\<open>undefined\<close> on the absent side.
\<close>

theorem tuple_entries_positional:
  assumes "go (Suc n) f (Tuple els rest) = Some d"
    and "not_nullish from" and "not_nullish to"
  shows "\<exists>ds.
      those (map (\<lambda>e. go n f (el_type e)) els) = Some ds \<and>
      d from to =
        (case collect (map (\<lambda>(i, differ). position_entry from to differ i) (zip [0..<length ds] ds)) of
           Inl e \<Rightarrow> Inl e
         | Inr entries \<Rightarrow> Inr (if entries = [] then Identical else ArrayOps entries)) \<and>
      (list_all (\<lambda>e. leaf_type n f (el_type e)) els \<longrightarrow> (\<exists>p. d from to = Inr p)) \<and>
      (\<forall>p. d from to = Inr p \<longrightarrow> \<not> is_add_or_remove p \<and> positional p) \<and>
      (\<forall>i < length els. leaf_type n f (el_type (els ! i)) \<longrightarrow>
         elem from i = VUndefined \<longrightarrow> elem to i \<noteq> VUndefined \<longrightarrow>
           (\<forall>p. d from to = Inr p \<longrightarrow>
              (\<exists>entries. p = ArrayOps entries \<and> (i, Replace VUndefined (elem to i)) \<in> set entries)) \<and>
           (\<forall>p. d to from = Inr p \<longrightarrow>
              (\<exists>entries. p = ArrayOps entries \<and> (i, Replace (elem to i) VUndefined) \<in> set entries)))"
proof -
  from assms(1) obtain ds where
    ds: "those (map (\<lambda>e. go n f (el_type e)) els) = Some ds" and
    d: "d = tuple_differ ds"
    by (auto split: option.splits)
  have len: "length ds = length els"
    by (rule those_map_length[OF ds])
  have leaf: "ds ! i = leaf_differ \<or> ds ! i = number_differ"
    if "i < length els" "leaf_type n f (el_type (els ! i))" for i
    using those_map_nth[OF ds that(1)] go_leaf_type[OF that(2)] by blast
  have entries: "d from to =
        (case collect (map (\<lambda>(i, differ). position_entry from to differ i) (zip [0..<length ds] ds)) of
           Inl e \<Rightarrow> Inl e
         | Inr entries \<Rightarrow> Inr (if entries = [] then Identical else ArrayOps entries))"
    unfolding d by (rule tuple_differ_entries[OF assms(2,3)])
  have returns: "list_all (\<lambda>e. leaf_type n f (el_type e)) els \<longrightarrow> (\<exists>p. d from to = Inr p)"
  proof
    assume all: "list_all (\<lambda>e. leaf_type n f (el_type e)) els"
    have "\<forall>m \<in> set (map (\<lambda>(i, differ). position_entry from to differ i) (zip [0..<length ds] ds)).
        \<exists>xs. m = Inr xs"
    proof
      fix m
      assume "m \<in> set (map (\<lambda>(i, differ). position_entry from to differ i) (zip [0..<length ds] ds))"
      then obtain i where i: "i < length ds" and m: "m = position_entry from to (ds ! i) i"
        by (auto simp: set_zip)
      from all i len have "leaf_type n f (el_type (els ! i))"
        by (simp add: list_all_length)
      with i len leaf have "ds ! i = leaf_differ \<or> ds ! i = number_differ" by simp
      from leaf_position_returns[OF this] m show "\<exists>xs. m = Inr xs" by simp
    qed
    from collect_returns[OF this] entries show "\<exists>p. d from to = Inr p"
      by auto
  qed
  have typed: "\<forall>p. d from to = Inr p \<longrightarrow> \<not> is_add_or_remove p \<and> positional p"
    using go_sound[OF assms(1)] by (auto simp: sound_differ_def root_positional_def)
  have absent: "\<forall>i < length els. leaf_type n f (el_type (els ! i)) \<longrightarrow>
         elem from i = VUndefined \<longrightarrow> elem to i \<noteq> VUndefined \<longrightarrow>
           (\<forall>p. d from to = Inr p \<longrightarrow>
              (\<exists>entries. p = ArrayOps entries \<and> (i, Replace VUndefined (elem to i)) \<in> set entries)) \<and>
           (\<forall>p. d to from = Inr p \<longrightarrow>
              (\<exists>entries. p = ArrayOps entries \<and> (i, Replace (elem to i) VUndefined) \<in> set entries))"
  proof (intro allI impI)
    fix i
    assume i: "i < length els" and lt: "leaf_type n f (el_type (els ! i))"
      and u: "elem from i = VUndefined" and v: "elem to i \<noteq> VUndefined"
    from leaf[OF i lt] have l: "ds ! i = leaf_differ \<or> ds ! i = number_differ" .
    from i len have i': "i < length ds" by simp
    show "(\<forall>p. d from to = Inr p \<longrightarrow>
              (\<exists>entries. p = ArrayOps entries \<and> (i, Replace VUndefined (elem to i)) \<in> set entries)) \<and>
           (\<forall>p. d to from = Inr p \<longrightarrow>
              (\<exists>entries. p = ArrayOps entries \<and> (i, Replace (elem to i) VUndefined) \<in> set entries))"
      using tuple_entry_member[OF assms(2,3) i' leaf_absent_side(1)[OF l u v]]
        tuple_entry_member[OF assms(3,2) i' leaf_absent_side(2)[OF l u v]]
      unfolding d by blast
  qed
  from ds entries returns typed absent show ?thesis
    by blast
qed

theorem tuple_entries_positional_witness:
  "map_option (\<lambda>d. d (VArr 0 []) (VArr 1 [VStr ''b'']))
     (go (Suc (Suc 0)) (\<lambda>t. NeverKeyword) (Tuple [Element StringKeyword True] []))
   = Some (Inr (ArrayOps [(0, Replace VUndefined (VStr ''b''))]))"
proof -
  let ?from = "VArr 0 []"
  let ?to = "VArr 1 [VStr ''b'']"
  obtain d where d: "go (Suc (Suc 0)) (\<lambda>t. NeverKeyword) (Tuple [Element StringKeyword True] []) = Some d"
    by simp
  have nn: "not_nullish ?from" "not_nullish ?to"
    by (simp_all add: not_nullish_def)
  from tuple_entries_positional[OF d nn] obtain ds where
    ds: "those (map (\<lambda>e. go (Suc 0) (\<lambda>t. NeverKeyword) (el_type e)) [Element StringKeyword True]) = Some ds" and
    entries: "d ?from ?to =
        (case collect (map (\<lambda>(i, differ). position_entry ?from ?to differ i) (zip [0..<length ds] ds)) of
           Inl e \<Rightarrow> Inl e
         | Inr entries \<Rightarrow> Inr (if entries = [] then Identical else ArrayOps entries))"
    by blast
  from ds have "ds = [leaf_differ]" by auto
  with entries have "d ?from ?to = Inr (ArrayOps [(0, Replace VUndefined (VStr ''b''))])"
    by (simp add: position_entry_def elem_def get_index_def leaf_differ_def strict_equals_def
        make_def replace_def)
  with d show ?thesis by simp
qed

text \<open>The claim as stated fails in these ways.  On a tuple with an element of record
  type, \<^verbatim>\<open>S.tuple(S.struct({ a: S.optional(S.string) }))\<close>, the diff of \<open>[{}]\<close>
  against \<open>[{a: "x"}]\<close> has an \<open>Add\<close> entry in its tree.  A position that only one
  value populates does not always yield a \<open>Replace\<close>: with an optional element of the
  empty record type, \<open>[]\<close> against \<open>[{}]\<close> is \<open>Identical\<close>; with an optional element
  of type \<^verbatim>\<open>unknown\<close>, \<open>[]\<close> against \<open>[undefined]\<close> is \<open>Identical\<close>; with an
  optional element of type \<^verbatim>\<open>S.struct({ b: S.string })\<close>, \<open>[{b: "x"}]\<close> against
  \<open>[]\<close> gives no op tree at all, the differ throws a \<^verbatim>\<open>TypeError\<close>; and so it does
  with an optional element of type \<^verbatim>\<open>S.tuple(S.string)\<close> on \<open>[]\<close> against
  \<open>[["a"]]\<close>.\<close>

theorem tuple_op_tree_counterexample:
  "map_option (\<lambda>d. d (VArr 0 [VObj 1 []]) (VArr 2 [VObj 3 [(KStr ''a'', VStr ''x'')]]))
     (go (Suc (Suc (Suc 0))) (\<lambda>t. NeverKeyword) tuple_optional_record)
   = Some (Inr (ArrayOps [(0, ObjectOps [(KStr ''a'', Add (VStr ''x''))])])) \<and>
   has_add_or_remove (ArrayOps [(0, ObjectOps [(KStr ''a'', Add (VStr ''x''))])]) \<and>
   map_option (\<lambda>d. d (VArr 0 []) (VArr 1 [VObj 2 []]))
     (go (Suc (Suc 0)) (\<lambda>t. NeverKeyword) (Tuple [Element (TypeLiteral [] []) True] []))
   = Some (Inr Identical) \<and>
   map_option (\<lambda>d. d (VArr 0 []) (VArr 1 [VUndefined]))
     (go (Suc (Suc 0)) (\<lambda>t. NeverKeyword) (Tuple [Element UnknownKeyword True] []))
   = Some (Inr Identical) \<and>
   map_option (\<lambda>d. d (VArr 0 [VObj 1 [(KStr ''b'', VStr ''x'')]]) (VArr 2 []))
     (go (Suc (Suc (Suc 0))) (\<lambda>t. NeverKeyword) tuple_optional_struct_b)
   = Some (Inl TypeError) \<and>
   map_option (\<lambda>d. d (VArr 0 []) (VArr 1 [VArr 2 [VStr ''a'']]))
     (go (Suc (Suc (Suc 0))) (\<lambda>t. NeverKeyword) tuple_optional_tuple)
   = Some (Inl TypeError)"
  by (simp add: tuple_optional_record_def tuple_optional_struct_b_def tuple_optional_tuple_def
      tuple_differ_def
      typeLiteral_differ_def get_index_def
      hasOwnProperty_def get_prop_def own_enumerable_def length_prop_def make_def add_def
      objectOps_def arrayOps_def isIdentical_def leaf_differ_def strict_equals_def identical_def)

subsection \<open>Array patches\<close>

lemma runArrayEntries_list_order:
  "runArrayEntries es a out n =
     bindE (resolve_entries es a n) (\<lambda>(eds, n'). Inr (foldl edit_step out eds, n'))"
proof (induction es arbitrary: out n)
  case Nil
  show ?case by simp
next
  case (Cons e es)
  obtain i sub where e: "e = (i, sub)" by (cases e)
  show ?case
    by (cases sub)
       (auto simp: e Cons.IH resolve_entry_def edit_step_def bindE_def split: sum.splits)
qed

lemma resolve_entries_indices:
  "resolve_entries es a n = Inr (eds, n') \<Longrightarrow> map fst eds = map fst es"
proof (induction es arbitrary: n eds)
  case Nil
  then show ?case by simp
next
  case (Cons e es)
  obtain i sub where e: "e = (i, sub)" by (cases e)
  from Cons.prems obtain ed n1 eds' where
    rest: "resolve_entries es a n1 = Inr (eds', n')" and eds: "eds = (i, ed) # eds'"
    by (auto simp: e bindE_def split: sum.splits)
  from Cons.IH[OF rest] eds show ?case by (simp add: e)
qed

lemma edit_step_append:
  assumes "addresses (length P) i e"
  shows "edit_step (P @ S) (i, e) = edit_step P (i, e) @ S"
  using assms
  by (cases e)
     (simp_all add: edit_step_def addresses_def splice_insert_def splice_remove_def set_index_def
       list_update_append1)

lemma edit_step_length:
  assumes "addresses (length P) i e"
  shows "i \<le> length (edit_step P (i, e))"
  using assms
  by (cases e)
     (auto simp: edit_step_def addresses_def splice_insert_def splice_remove_def set_index_def)

lemma in_bounds_below:
  assumes "\<forall>j \<in> set (map fst eds). j < i" "i \<le> len"
  shows "in_bounds len eds"
  using assms unfolding in_bounds_def list_all_iff addresses_def
  by (auto split: array_edit.splits)

lemma foldl_edit_append:
  "descending eds \<Longrightarrow> in_bounds (length P) eds \<Longrightarrow>
   foldl edit_step (P @ S) eds = foldl edit_step P eds @ S"
proof (induction eds arbitrary: P)
  case Nil
  show ?case by simp
next
  case (Cons ed eds)
  obtain i e where ed: "ed = (i, e)" by (cases ed)
  from Cons.prems(2) have b: "addresses (length P) i e"
    by (simp add: in_bounds_def ed)
  from Cons.prems(1) have d: "descending eds" and below: "\<forall>j \<in> set (map fst eds). j < i"
    by (auto simp: descending_def ed)
  have "in_bounds (length (edit_step P (i, e))) eds"
    by (rule in_bounds_below[OF below edit_step_length[OF b]])
  from Cons.IH[OF d this] show ?case
    by (simp add: ed edit_step_append[OF b])
qed

lemma map_of_below:
  fixes eds :: "(nat \<times> array_edit) list"
  assumes "\<forall>j \<in> set (map fst eds). j < i" "i \<le> k"
  shows "map_of eds k = None"
proof -
  have "k \<notin> fst ` set eds"
  proof
    assume "k \<in> fst ` set eds"
    then have "k \<in> set (map fst eds)" by simp
    with assms(1) have "k < i" by blast
    with assms(2) show False by simp
  qed
  then show ?thesis by (simp add: map_of_eq_None_iff)
qed

lemma concat_singletons_drop: "concat (map (\<lambda>j. [xs ! j]) [a..<length xs]) = drop a xs"
proof -
  have "concat (map (\<lambda>j. [xs ! j]) [a..<length xs]) = map (\<lambda>j. xs ! j) [a..<length xs]"
    by (induction "[a..<length xs]") (simp_all add: concat_map_singleton)
  also have "\<dots> = drop a xs"
    by (simp add: list_eq_iff_nth_eq)
  finally show ?thesis .
qed

lemma captured_prefix:
  assumes below: "\<forall>j \<in> set (map fst eds). j < i" and i: "i \<le> length xs"
  shows "concat (map (\<lambda>j. inserted ((i, e) # eds) j @ kept ((i, e) # eds) xs j) [0..<i])
       = apply_at_captured_indices (take i xs) eds"
proof -
  have m: "map (\<lambda>j. inserted ((i, e) # eds) j @ kept ((i, e) # eds) xs j) [0..<i]
      = map (\<lambda>j. inserted eds j @ kept eds (take i xs) j) [0..<i]"
    by (rule map_cong) (auto simp: inserted_def kept_def split: option.splits array_edit.splits)
  have ins: "inserted eds i = []"
    using map_of_below[OF below, of i] by (simp add: inserted_def)
  have len: "length (take i xs) = i"
    using i by simp
  show ?thesis
    by (simp only: apply_at_captured_indices_def len m ins append_Nil2)
qed

lemma captured_suffix:
  assumes below: "\<forall>j \<in> set (map fst eds). j < i" and i: "i < k"
  shows "inserted ((i, e) # eds) k = []" "kept ((i, e) # eds) xs k = [xs ! k]"
  using map_of_below[OF below, of k] i by (simp_all add: inserted_def kept_def)

lemma captured_tail:
  assumes below: "\<forall>j \<in> set (map fst eds). j < i" and i: "i < length xs"
  shows "concat (map (\<lambda>j. inserted ((i, e) # eds) j @ kept ((i, e) # eds) xs j) [Suc i..<length xs])
         @ inserted ((i, e) # eds) (length xs) = drop (Suc i) xs"
proof -
  have eq: "map (\<lambda>j. inserted ((i, e) # eds) j @ kept ((i, e) # eds) xs j) [Suc i..<length xs]
      = map (\<lambda>j. [xs ! j]) [Suc i..<length xs]"
    by (rule map_cong) (simp_all add: captured_suffix[OF below])
  show ?thesis
    by (simp only: eq concat_singletons_drop captured_suffix(1)[OF below i] append_Nil2)
qed

lemma captured_Cons:
  assumes below: "\<forall>j \<in> set (map fst eds). j < i"
    and b: "addresses (length xs) i e"
  shows "apply_at_captured_indices xs ((i, e) # eds)
       = apply_at_captured_indices (take i xs) eds @ drop i (edit_step xs (i, e))"
proof (cases "i < length xs")
  case True
  then have split: "[0..<length xs] = [0..<i] @ i # [Suc i..<length xs]"
    by (metis le_add1 less_imp_add_positive upt_add_eq_append upt_conv_Cons zero_le le_eq_less_or_eq
        less_or_eq_imp_le upt_rec)
  have at_i: "inserted ((i, e) # eds) i @ kept ((i, e) # eds) xs i @ drop (Suc i) xs
      = drop i (edit_step xs (i, e))"
    using True
    by (cases e)
       (simp_all add: inserted_def kept_def edit_step_def splice_insert_def splice_remove_def
         set_index_def Cons_nth_drop_Suc drop_update_swap flip: Cons_nth_drop_Suc)
  have "apply_at_captured_indices xs ((i, e) # eds)
      = concat (map (\<lambda>j. inserted ((i, e) # eds) j @ kept ((i, e) # eds) xs j) [0..<i])
        @ inserted ((i, e) # eds) i @ kept ((i, e) # eds) xs i
        @ (concat (map (\<lambda>j. inserted ((i, e) # eds) j @ kept ((i, e) # eds) xs j) [Suc i..<length xs])
           @ inserted ((i, e) # eds) (length xs))"
    unfolding apply_at_captured_indices_def split by simp
  also have "\<dots> = apply_at_captured_indices (take i xs) eds
        @ inserted ((i, e) # eds) i @ kept ((i, e) # eds) xs i @ drop (Suc i) xs"
    using True by (simp only: captured_prefix[OF below less_imp_le[OF True]] captured_tail[OF below True])
  finally show ?thesis
    using at_i by simp
next
  case False
  with b have i: "i = length xs" and e: "(\<exists>v. e = Insert v) \<or> e = Keep"
    by (cases e; simp add: addresses_def)+
  have "apply_at_captured_indices xs ((i, e) # eds)
      = concat (map (\<lambda>j. inserted ((i, e) # eds) j @ kept ((i, e) # eds) xs j) [0..<i])
        @ inserted ((i, e) # eds) i"
    by (simp add: apply_at_captured_indices_def i)
  also have "\<dots> = apply_at_captured_indices (take i xs) eds @ inserted ((i, e) # eds) i"
    using captured_prefix[OF below, of xs e] i by simp
  finally show ?thesis
    using e by (auto simp: i inserted_def edit_step_def splice_insert_def)
qed

lemma foldl_edit_captured:
  "descending eds \<Longrightarrow> in_bounds (length xs) eds \<Longrightarrow>
   foldl edit_step xs eds = apply_at_captured_indices xs eds"
proof (induction eds arbitrary: xs)
  case Nil
  have "concat (map (\<lambda>j. [xs ! j]) [0..<length xs]) = xs"
    using concat_singletons_drop[of xs 0] by simp
  then show ?case
    by (simp add: apply_at_captured_indices_def inserted_def kept_def)
next
  case (Cons ed eds)
  obtain i e where ed: "ed = (i, e)" by (cases ed)
  from Cons.prems(2) have b: "addresses (length xs) i e"
    by (simp add: in_bounds_def ed)
  then have i: "i \<le> length xs" by (cases e) (simp_all add: addresses_def)
  from Cons.prems(1) have d: "descending eds" and below: "\<forall>j \<in> set (map fst eds). j < i"
    by (auto simp: descending_def ed)
  have bounds: "in_bounds (length (take i xs)) eds"
    using in_bounds_below[OF below, of i] i by simp
  have step: "edit_step xs (i, e) = take i xs @ drop i (edit_step xs (i, e))"
  proof (cases e)
    case (Assign v)
    have "take i (xs[i := v]) = take i xs" by simp
    then have "xs[i := v] = take i xs @ drop i (xs[i := v])"
      by (metis append_take_drop_id)
    with Assign b show ?thesis
      by (simp add: edit_step_def addresses_def set_index_def)
  qed (use b i in \<open>simp_all add: edit_step_def addresses_def splice_insert_def splice_remove_def\<close>)
  have "foldl edit_step xs (ed # eds) = foldl edit_step (take i xs @ drop i (edit_step xs (i, e))) eds"
    using step by (simp add: ed)
  also have "\<dots> = foldl edit_step (take i xs) eds @ drop i (edit_step xs (i, e))"
    by (rule foldl_edit_append[OF d bounds])
  also have "\<dots> = apply_at_captured_indices (take i xs) eds @ drop i (edit_step xs (i, e))"
    by (simp add: Cons.IH[OF d bounds])
  also have "\<dots> = apply_at_captured_indices xs ((i, e) # eds)"
    by (rule captured_Cons[OF below b, symmetric])
  finally show ?case by (simp add: ed)
qed

text \<open>
  C3 (as amended).  \<^verbatim>\<open>runPatch\<close> applies the entries of an \<open>ArrayOps\<close> node,
  whatever they are, in the order of the list: an insertion and a removal at the index in
  the array as the entries before it have left it, an entry that changes an element in
  place by reading the element of the input at the index and writing the result at that
  index of the array in progress.  It does not sort the entries and does not renumber.
  When the list has its indices in strictly descending order, within the bounds of the
  array, every index addresses the position as captured at diff time: the result is the
  edit of the original array at those positions.
\<close>

theorem array_entries_list_order:
  "runPatch (ArrayOps es) (VArr r xs) n =
     bindE (resolve_entries es (VArr r xs) (Suc n))
       (\<lambda>(eds, n'). Inr (VArr n (foldl edit_step xs eds), n')) \<and>
   (\<forall>eds n'. resolve_entries es (VArr r xs) (Suc n) = Inr (eds, n') \<longrightarrow>
      map fst eds = map fst es \<and>
      (descending es \<and> in_bounds (length xs) eds \<longrightarrow>
         foldl edit_step xs eds = apply_at_captured_indices xs eds))"
proof (intro conjI allI impI)
  show "runPatch (ArrayOps es) (VArr r xs) n =
     bindE (resolve_entries es (VArr r xs) (Suc n))
       (\<lambda>(eds, n'). Inr (VArr n (foldl edit_step xs eds), n'))"
    by (simp add: runPatch_def runArrayEntries_list_order bindE_def split: sum.splits)
next
  fix eds n'
  assume "resolve_entries es (VArr r xs) (Suc n) = Inr (eds, n')"
  then show "map fst eds = map fst es"
    by (rule resolve_entries_indices)
next
  fix eds n'
  assume r: "resolve_entries es (VArr r xs) (Suc n) = Inr (eds, n')"
    and h: "descending es \<and> in_bounds (length xs) eds"
  from resolve_entries_indices[OF r] h have "descending eds"
    by (simp add: descending_def)
  with h show "foldl edit_step xs eds = apply_at_captured_indices xs eds"
    by (simp add: foldl_edit_captured)
qed

theorem array_entries_list_order_witness:
  "runPatch (ArrayOps [(2, Remove (VStr ''c'')), (1, Replace (VStr ''b'') (VStr ''y'')),
                       (0, Add (VStr ''z''))])
     (VArr 0 [VStr ''a'', VStr ''b'', VStr ''c'']) 1
   = Inr (VArr 1 [VStr ''z'', VStr ''a'', VStr ''y''], 2) \<and>
   apply_at_captured_indices [VStr ''a'', VStr ''b'', VStr ''c'']
     [(2, Delete), (1, Assign (VStr ''y'')), (0, Insert (VStr ''z''))]
   = [VStr ''z'', VStr ''a'', VStr ''y'']"
proof -
  let ?es = "[(2, Remove (VStr ''c'')), (1, Replace (VStr ''b'') (VStr ''y'')), (0, Add (VStr ''z''))]"
  let ?eds = "[(2, Delete), (1, Assign (VStr ''y'')), (0, Insert (VStr ''z''))]"
  let ?xs = "[VStr ''a'', VStr ''b'', VStr ''c'']"
  have r: "resolve_entries ?es (VArr 0 ?xs) (Suc 1) = Inr (?eds, 2)"
    by (simp add: resolve_entry_def get_index_def)
  have h: "descending ?es" "in_bounds (length ?xs) ?eds"
    by (simp_all add: descending_def in_bounds_def addresses_def)
  have v: "apply_at_captured_indices ?xs ?eds = [VStr ''z'', VStr ''a'', VStr ''y'']"
    by (simp add: apply_at_captured_indices_def inserted_def kept_def upt_rec)
  from array_entries_list_order[of ?es 0 ?xs 1] r h v show ?thesis
    by simp
qed

text \<open>The claim as stated fails on a patch that lists two removals in ascending order:
  on \<open>[a, b, c]\<close>, removing at 0 and then at 1 leaves \<open>[b]\<close>, where the indices captured
  at diff time (and the same entries applied in descending order) leave \<open>[c]\<close>.\<close>

theorem array_patch_order_counterexample:
  "runPatch (ArrayOps [(0, Remove (VStr ''a'')), (1, Remove (VStr ''b''))])
     (VArr 0 [VStr ''a'', VStr ''b'', VStr ''c'']) 1
   = Inr (VArr 1 [VStr ''b''], 2) \<and>
   resolve_entries [(0, Remove (VStr ''a'')), (1, Remove (VStr ''b''))]
     (VArr 0 [VStr ''a'', VStr ''b'', VStr ''c'']) 2
   = Inr ([(0, Delete), (1, Delete)], 2) \<and>
   apply_at_captured_indices [VStr ''a'', VStr ''b'', VStr ''c''] [(0, Delete), (1, Delete)]
   = [VStr ''c''] \<and>
   runPatch (ArrayOps [(1, Remove (VStr ''b'')), (0, Remove (VStr ''a''))])
     (VArr 0 [VStr ''a'', VStr ''b'', VStr ''c'']) 1
   = Inr (VArr 1 [VStr ''c''], 2)"
  by (simp add: runPatch_def splice_remove_def apply_at_captured_indices_def inserted_def
      kept_def upt_rec resolve_entry_def)

subsection \<open>Leaves, identity and round trips\<close>

lemma number_leaf_semantics:
  "map_option (\<lambda>d. d x y) (go (Suc n) f NumberKeyword)
     = Some (Inr (if object_is x y then Identical else Replace x y))"
  "map_option (\<lambda>d. d (VNum NaN) (VNum NaN)) (go (Suc n) f NumberKeyword) = Some (Inr Identical)"
  "map_option (\<lambda>d. d (VNum (Fin 0)) (VNum NegZero)) (go (Suc n) f NumberKeyword)
     = Some (Inr (Replace (VNum (Fin 0)) (VNum NegZero)))"
  by (simp_all add: number_differ_def object_is_def make_def identical_def replace_def)

text \<open>
  C5.  Leaf equality.  The number shape compares with \<^verbatim>\<open>Object.is\<close>
  (\<open>number_leaf_semantics\<close>).  The other leaves compare with \<^verbatim>\<open>===\<close>: the differ of
  \<^verbatim>\<open>S.unknown\<close> returns \<open>Replace (NaN, NaN)\<close> although the two values are the same
  value, and \<open>Identical\<close> on \<open>+0\<close> and \<open>-0\<close> although they are not.
\<close>

theorem unknown_leaf_strict_equality:
  "map_option (\<lambda>d. d (VNum NaN) (VNum NaN)) (go (Suc n) f UnknownKeyword)
     = Some (Inr (Replace (VNum NaN) (VNum NaN))) \<and>
   object_is (VNum NaN) (VNum NaN) \<and>
   map_option (\<lambda>d. d (VNum (Fin 0)) (VNum NegZero)) (go (Suc n) f UnknownKeyword)
     = Some (Inr Identical) \<and>
   \<not> object_is (VNum (Fin 0)) (VNum NegZero)"
  by (simp add: leaf_differ_def strict_equals_def strict_equals_num_def object_is_def make_def
      identical_def replace_def)

text \<open>
  C6.  Identity.  On \<open>NaN\<close> against itself the differs of \<^verbatim>\<open>S.unknown\<close> and of
  \<^verbatim>\<open>S.union(S.number, S.string)\<close> return \<open>Replace (NaN, NaN)\<close>, not \<open>Identical\<close>.
\<close>

theorem identity_fails_on_nan:
  "map_option (\<lambda>d. d (VNum NaN) (VNum NaN)) (go (Suc n) f UnknownKeyword)
     = Some (Inr (Replace (VNum NaN) (VNum NaN))) \<and>
   map_option (\<lambda>d. d (VNum NaN) (VNum NaN)) (go (Suc n) f (Union [NumberKeyword, StringKeyword]))
     = Some (Inr (Replace (VNum NaN) (VNum NaN)))"
  by (simp add: leaf_differ_def strict_equals_def strict_equals_num_def make_def
      identical_def replace_def)

text \<open>
  C1.  Round trip.  For \<^verbatim>\<open>S.array(S.string)\<close> the differ compares no position: the
  diff of \<open>["a"]\<close> against \<open>["b"]\<close> is \<open>Identical\<close>, and the patch applied to \<open>["a"]\<close>
  returns \<open>["a"]\<close>, which is not \<open>["b"]\<close>.
\<close>

theorem round_trip_fails_on_array:
  "map_option (\<lambda>d. d (VArr 0 [VStr ''a'']) (VArr 1 [VStr ''b''])) (go (Suc n) f array_string)
     = Some (Inr Identical) \<and>
   map_option (\<lambda>d. bindE (d (VArr 0 [VStr ''a'']) (VArr 1 [VStr ''b'']))
                  (\<lambda>patch. runPatch patch (VArr 0 [VStr ''a'']) 2))
     (go (Suc n) f array_string)
     = Some (Inr (VArr 0 [VStr ''a''], 2)) \<and>
   \<not> struct_eq (VArr 0 [VStr ''a'']) (VArr 1 [VStr ''b''])"
  by (simp add: array_string_def tuple_differ_def make_def identical_def runPatch_def)

text \<open>
  C2.  Reversibility.  For \<^verbatim>\<open>S.array(S.string)\<close> the reversed patch of the diff of
  \<open>[]\<close> against \<open>["b", "c"]\<close>, applied to \<open>["b", "c"]\<close>, returns \<open>["b", "c"]\<close>, which
  is not \<open>[]\<close>.
\<close>

theorem reverse_fails_on_array:
  "map_option (\<lambda>d. bindE (d (VArr 0 []) (VArr 1 [VStr ''b'', VStr ''c'']))
                  (\<lambda>patch. runPatch (reverse patch) (VArr 1 [VStr ''b'', VStr ''c'']) 2))
     (go (Suc n) f array_string)
     = Some (Inr (VArr 1 [VStr ''b'', VStr ''c''], 2)) \<and>
   \<not> struct_eq (VArr 1 [VStr ''b'', VStr ''c'']) (VArr 0 [])"
  by (simp add: array_string_def tuple_differ_def make_def identical_def runPatch_def
      reverse_def reverseOp_def)

lemma round_trip_fails_on_signed_zero:
  "map_option (\<lambda>d. bindE (d (VNum (Fin 0)) (VNum NegZero))
                  (\<lambda>patch. runPatch patch (VNum (Fin 0)) 0))
     (go (Suc n) f UnknownKeyword)
     = Some (Inr (VNum (Fin 0), 0)) \<and>
   \<not> struct_eq (VNum (Fin 0)) (VNum NegZero)"
  by (simp add: leaf_differ_def strict_equals_def strict_equals_num_def make_def
      identical_def runPatch_def)

subsection \<open>Compilation of recursive schemas\<close>

lemma go_user_diverges:
  "go n user_thunks user_schema = None \<and> go n user_thunks (Lazy 0) = None"
proof (induction n)
  case 0
  show ?case by simp
next
  case (Suc n)
  have t: "user_thunks 0 = user_schema"
    by (simp add: user_thunks_def)
  from Suc have "go (Suc n) user_thunks (Lazy 0) = None"
    by (simp add: t)
  moreover from Suc have "go (Suc n) user_thunks user_schema = None"
    by (cases n) (simp_all add: user_schema_def)
  ultimately show ?case by simp
qed

text \<open>
  C4.  Compilation of a self-referential schema.  On the \<^verbatim>\<open>User\<close> schema, whose field
  \<^verbatim>\<open>subUser\<close> is lazily the schema itself, \<^verbatim>\<open>fromSchema\<close> does not return: at every
  depth of calls the compilation is still inside \<^verbatim>\<open>go\<close>.  Nothing is memoized; the
  lazy node is resolved and compiled each time it is met.  (\<open>go_lazy_through_rest\<close>: a
  schema that refers to itself only through the rest element of an array compiles,
  because \<^verbatim>\<open>go\<close> does not compile rest elements.)
\<close>

theorem compile_recursive_schema_diverges:
  "fromSchema (\<lambda>a. a) n user_thunks user_schema = None"
  by (simp add: fromSchema_def go_user_diverges)

lemma go_lazy_through_rest:
  "map_option (\<lambda>d. d (VObj 0 [(KStr ''a'', VStr ''a''), (KStr ''as'', VArr 1 [])])
                    (VObj 2 [(KStr ''a'', VStr ''b''), (KStr ''as'', VArr 3 [])]))
     (fromSchema (\<lambda>a. a) (Suc (Suc (Suc n))) list_thunks (Lazy 0))
   = Some (Inr (ObjectOps [(KStr ''a'', Replace (VStr ''a'') (VStr ''b''))]))"
  by (simp add: fromSchema_def list_thunks_def [abs_def] list_schema_def typeLiteral_differ_def
      tuple_differ_def leaf_differ_def strict_equals_def hasOwnProperty_def get_prop_def
      own_enumerable_def length_prop_def make_def identical_def replace_def objectOps_def
      isIdentical_def)

subsection \<open>Compilation returns on descriptors without lazy nodes\<close>

text \<open>A deeper bound on the calls does not change what \<^verbatim>\<open>go\<close> returns, and on a
  descriptor without lazy nodes some bound is enough: there \<^verbatim>\<open>go\<close> returns a differ.\<close>

lemma go_mono: "go n f a = Some d \<Longrightarrow> n \<le> m \<Longrightarrow> go m f a = Some d"
proof (induction n arbitrary: a d m)
  case 0
  then show ?case by simp
next
  case (Suc n)
  from Suc.prems(2) obtain m' where m: "m = Suc m'" and le: "n \<le> m'"
    by (cases m) simp_all
  have lift: "those (map (\<lambda>x. go n f (g x)) xs) = Some ds \<Longrightarrow>
      those (map (\<lambda>x. go m' f (g x)) xs) = Some ds" for g :: "'x \<Rightarrow> ast" and xs ds
  proof (induction xs arbitrary: ds)
    case Nil
    then show ?case by simp
  next
    case (Cons x xs)
    then show ?case
      by (auto split: option.splits dest: Suc.IH[OF _ le])
  qed
  show ?case
  proof (cases a)
    case (Tuple els rest)
    with Suc.prems(1) lift[of el_type els] show ?thesis
      by (auto simp: m split: option.splits)
  next
    case (TypeLiteral pss iss)
    with Suc.prems(1) lift[of ps_type pss] lift[of is_type iss] show ?thesis
      by (auto simp: m split: option.splits)
  next
    case (Refinement base)
    with Suc.prems(1) Suc.IH[OF _ le] show ?thesis by (simp add: m)
  next
    case (Lazy t)
    with Suc.prems(1) Suc.IH[OF _ le] show ?thesis by (simp add: m)
  qed (use Suc.prems(1) in \<open>simp_all add: m\<close>)
qed

lemma those_map_go_mono:
  "those (map (\<lambda>x. go k f (g x)) ys) = Some zs \<Longrightarrow> k \<le> m \<Longrightarrow>
   those (map (\<lambda>x. go m f (g x)) ys) = Some zs"
proof (induction ys arbitrary: zs)
  case Nil
  then show ?case by simp
next
  case (Cons y ys)
  then show ?case
    by (auto split: option.splits dest: go_mono[where m = m])
qed

lemma those_map_total:
  assumes "\<forall>x \<in> set xs. \<exists>n d. go n f (g x) = Some d"
  shows "\<exists>n ds. those (map (\<lambda>x. go n f (g x)) xs) = Some ds"
  using assms
proof (induction xs)
  case Nil
  show ?case by simp
next
  case (Cons x xs)
  then obtain n1 d where d: "go n1 f (g x) = Some d" by auto
  from Cons obtain n2 ds where ds: "those (map (\<lambda>x. go n2 f (g x)) xs) = Some ds" by auto
  from go_mono[OF d, of "max n1 n2"] those_map_go_mono[OF ds, of "max n1 n2"]
  have "those (map (\<lambda>x. go (max n1 n2) f (g x)) (x # xs)) = Some (d # ds)" by simp
  then show ?case by blast
qed

lemma go_total_lazy_free: "lazy_free a \<Longrightarrow> \<exists>n d. go n f a = Some d"
proof (induction a rule: lazy_free.induct)
  case (1 t)
  then show ?case by simp
next
  case (2 base)
  then obtain n d where "go n f base = Some d" by auto
  then have "go (Suc n) f (Refinement base) = Some d" by simp
  then show ?case by blast
next
  case (3 elements rest)
  have "\<forall>e \<in> set elements. \<exists>n d. go n f (el_type e) = Some d"
  proof
    fix e assume e: "e \<in> set elements"
    obtain a opt where eq: "e = Element a opt" by (cases e)
    with 3 e show "\<exists>n d. go n f (el_type e) = Some d"
      by (auto simp: list_all_iff)
  qed
  from those_map_total[OF this] obtain n ds where
    "those (map (\<lambda>e. go n f (el_type e)) elements) = Some ds" by blast
  then have "go (Suc n) f (Tuple elements rest) = Some (tuple_differ ds)" by simp
  then show ?case by blast
next
  case (4 pss iss)
  have "\<forall>ps \<in> set pss. \<exists>n d. go n f (ps_type ps) = Some d"
  proof
    fix ps assume ps: "ps \<in> set pss"
    obtain name a opt where eq: "ps = PropertySignature name a opt" by (cases ps)
    with 4 ps show "\<exists>n d. go n f (ps_type ps) = Some d"
      by (auto simp: list_all_iff)
  qed
  from those_map_total[OF this] obtain n1 pds where
    pds: "those (map (\<lambda>ps. go n1 f (ps_type ps)) pss) = Some pds" by blast
  have "\<forall>isig \<in> set iss. \<exists>n d. go n f (is_type isig) = Some d"
  proof
    fix isig assume isig: "isig \<in> set iss"
    obtain parameter a where eq: "isig = IndexSignature parameter a" by (cases isig)
    with 4 isig show "\<exists>n d. go n f (is_type isig) = Some d"
      by (auto simp: list_all_iff)
  qed
  from those_map_total[OF this] obtain n2 ids where
    ids: "those (map (\<lambda>isig. go n2 f (is_type isig)) iss) = Some ids" by blast
  from those_map_go_mono[OF pds, of "max n1 n2"] those_map_go_mono[OF ids, of "max n1 n2"]
  have "go (Suc (max n1 n2)) f (TypeLiteral pss iss)
      = Some (typeLiteral_differ pss iss pds ids)" by simp
  then show ?case by blast
qed (simp_all add: exI[where x = "Suc 0"])

subsection \<open>Identity on values without NaN\<close>

text \<open>Where the differ of a shape returns on a value against itself, and \<open>NaN\<close> does
  not occur in the value, the result is \<open>Identical\<close>: a differ that returns anything else
  on \<open>(a, a)\<close> has met \<open>NaN\<close> under a leaf that compares with \<^verbatim>\<open>===\<close>.  (A differ can
  also throw on \<open>(a, a)\<close>, as the differ of a tuple does on \<open>[]\<close> when an optional
  element has a record type.)\<close>

lemma strict_equals_refl: "nan_free a \<Longrightarrow> strict_equals a a"
  by (cases a) (simp_all add: strict_equals_def strict_equals_num_def)

lemma object_is_refl: "object_is a a"
  by (cases a) (simp_all add: object_is_def strict_equals_def)

lemma nan_free_indexed: "list_all nan_free xs \<Longrightarrow> (k, v) \<in> set (indexed xs) \<Longrightarrow> nan_free v"
  by (auto simp: indexed_def list_all_iff)

lemma nan_free_own:
  assumes "nan_free a" "(k, v) \<in> set (own_enumerable a @ length_prop a)"
  shows "nan_free v"
proof (cases a)
  case (VObj r fs)
  with assms show ?thesis
    by (auto simp: own_enumerable_def length_prop_def list_all_iff)
next
  case (VArr r xs)
  with assms nan_free_indexed[of xs k v] show ?thesis
    by (auto simp: own_enumerable_def length_prop_def)
next
  case (VStr s)
  with assms show ?thesis
    by (auto simp: own_enumerable_def length_prop_def indexed_def)
qed (use assms in \<open>simp_all add: own_enumerable_def length_prop_def\<close>)

lemma nan_free_get_prop:
  assumes "nan_free a" "get_prop a name = Inr x"
  shows "nan_free x"
proof (cases "map_of (own_enumerable a @ length_prop a) name")
  case None
  with assms(2) show ?thesis
    by (auto simp add: get_prop_def simp del: map_of_append split: if_splits)
next
  case (Some v)
  then have "(name, v) \<in> set (own_enumerable a @ length_prop a)"
    by (rule map_of_SomeD)
  from nan_free_own[OF assms(1) this] Some assms(2) show ?thesis
    by (auto simp add: get_prop_def simp del: map_of_append split: if_splits)
qed

lemma nan_free_get_index:
  assumes "nan_free a" "get_index a i = Inr x"
  shows "nan_free x"
proof (cases a)
  case (VObj r fs)
  show ?thesis
  proof (cases "map_of fs (KStr (string_of_nat i))")
    case None
    with VObj assms(2) show ?thesis by (simp add: get_index_def)
  next
    case (Some v)
    then have "(KStr (string_of_nat i), v) \<in> set fs" by (rule map_of_SomeD)
    with VObj assms Some show ?thesis
      by (auto simp: get_index_def list_all_iff)
  qed
next
  case (VArr r xs)
  with assms show ?thesis
    by (auto simp: get_index_def list_all_iff split: if_splits)
next
  case (VStr s)
  with assms show ?thesis
    by (auto simp: get_index_def split: if_splits)
qed (use assms in \<open>auto simp: get_index_def\<close>)

lemma tuple_loop_refl:
  assumes "\<forall>d \<in> set ds. reflexive_differ d" "nan_free a"
  shows "tuple_loop ds i a a ops = Inr res \<Longrightarrow> res = ops"
  using assms(1)
proof (induction ds arbitrary: i)
  case Nil
  then show ?case by simp
next
  case (Cons d ds)
  from Cons.prems(1) obtain x p where
    x: "get_index a i = Inr x" and p: "d x x = Inr p" and
    rest: "tuple_loop ds (Suc i) a a (if \<not> isIdentical p then ops @ [(i, p)] else ops) = Inr res"
    by (auto simp: bindE_Inr_iff)
  from Cons.prems(2) nan_free_get_index[OF assms(2) x] p have "p = Identical"
    by (auto simp: reflexive_differ_def)
  with rest Cons.IH[of "Suc i"] Cons.prems(2) show ?case
    by (simp add: isIdentical_def)
qed

lemma propertySignatures_loop_refl:
  assumes "\<forall>d \<in> snd ` set nds. reflexive_differ d" "nan_free a"
  shows "propertySignatures_loop nds a a ops = Inr res \<Longrightarrow> res = ops"
  using assms(1)
proof (induction nds)
  case Nil
  then show ?case by simp
next
  case (Cons nd nds)
  obtain name d where nd: "nd = (name, d)" by (cases nd)
  from Cons.prems(2) nd have d: "reflexive_differ d"
    and ds: "\<forall>d \<in> snd ` set nds. reflexive_differ d" by auto
  have "propertySignatures_loop nds a a ops = Inr res"
  proof (cases "hasOwnProperty a name")
    case (Inl e)
    with Cons.prems(1) show ?thesis by (simp add: nd)
  next
    case (Inr present)
    show ?thesis
    proof (cases present)
      case False
      with Inr Cons.prems(1) show ?thesis by (simp add: nd)
    next
      case True
      with Inr Cons.prems(1) obtain x p where
        x: "get_prop a name = Inr x" and p: "d x x = Inr p" and
        rest: "propertySignatures_loop nds a a (if \<not> isIdentical p then ops @ [(name, p)] else ops)
               = Inr res"
        by (auto simp: nd bindE_Inr_iff)
      from d nan_free_get_prop[OF assms(2) x] p have "p = Identical"
        by (auto simp: reflexive_differ_def)
      with rest show ?thesis by (simp add: isIdentical_def)
    qed
  qed
  from Cons.IH[OF this ds] show ?case .
qed

lemma fromKeys_loop_refl:
  assumes "reflexive_differ d" "nan_free a" "\<forall>k \<in> set ks. hasOwnProperty a k = Inr True"
  shows "fromKeys_loop expected d ks a a ops = Inr res \<Longrightarrow> res = ops"
  using assms(3)
proof (induction ks)
  case Nil
  then show ?case by simp
next
  case (Cons name ks)
  from Cons.prems(2) have here: "hasOwnProperty a name = Inr True"
    and rest: "\<forall>k \<in> set ks. hasOwnProperty a k = Inr True" by simp_all
  have "fromKeys_loop expected d ks a a ops = Inr res"
  proof (cases "name \<in> set (map fst expected)")
    case True
    with Cons.prems(1) show ?thesis by simp
  next
    case False
    with Cons.prems(1) here obtain x p where
      x: "get_prop a name = Inr x" and p: "d x x = Inr p" and
      run: "fromKeys_loop expected d ks a a (if \<not> isIdentical p then ops @ [(name, p)] else ops)
             = Inr res"
      by (auto simp: bindE_Inr_iff)
    from assms(1) nan_free_get_prop[OF assms(2) x] p have "p = Identical"
      by (auto simp: reflexive_differ_def)
    with run show ?thesis by (simp add: isIdentical_def)
  qed
  from Cons.IH[OF this rest] show ?case .
qed

lemma toKeys_loop_refl:
  assumes "\<forall>k \<in> set ks. hasOwnProperty a k = Inr True"
  shows "toKeys_loop expected ks a a ops = Inr res \<Longrightarrow> res = ops"
  using assms
proof (induction ks)
  case Nil
  then show ?case by simp
next
  case (Cons name ks)
  then show ?case
    by (cases "name \<in> set (map fst expected)") simp_all
qed

lemma getKeys_present:
  assumes "getKeysForIndexSignature a parameter = Inr ks" "k \<in> set ks"
  shows "hasOwnProperty a k = Inr True"
proof -
  from assms(1) have nn: "not_nullish a"
    by (induction a parameter rule: getKeysForIndexSignature.induct)
       (auto simp: object_keys_def object_symbols_def not_nullish_def split: if_splits)
  from getKeys_own[OF assms] hasOwnProperty_own_prop[OF nn] show ?thesis by simp
qed

lemma indexSignatures_loop_refl:
  assumes "\<forall>d \<in> snd ` set pds. reflexive_differ d" "nan_free a"
  shows "indexSignatures_loop expected pds a a ops = Inr res \<Longrightarrow> res = ops"
  using assms(1)
proof (induction pds)
  case Nil
  then show ?case by simp
next
  case (Cons pd pds)
  obtain parameter d where pd: "pd = (parameter, d)" by (cases pd)
  from Cons.prems(2) pd have d: "reflexive_differ d"
    and ds: "\<forall>d \<in> snd ` set pds. reflexive_differ d" by auto
  from Cons.prems(1) obtain ks ops1 ks' ops2 where
    ks: "getKeysForIndexSignature a parameter = Inr ks" and
    l1: "fromKeys_loop expected d ks a a ops = Inr ops1" and
    ks': "getKeysForIndexSignature a parameter = Inr ks'" and
    l2: "toKeys_loop expected ks' a a ops1 = Inr ops2" and
    rest: "indexSignatures_loop expected pds a a ops2 = Inr res"
    by (auto simp: pd bindE_Inr_iff)
  have present: "\<forall>k \<in> set ks. hasOwnProperty a k = Inr True"
    using getKeys_present[OF ks] by blast
  have present': "\<forall>k \<in> set ks'. hasOwnProperty a k = Inr True"
    using getKeys_present[OF ks'] by blast
  from fromKeys_loop_refl[OF d assms(2) present l1] have "ops1 = ops" .
  moreover from toKeys_loop_refl[OF present' l2] have "ops2 = ops1" .
  ultimately have "indexSignatures_loop expected pds a a ops = Inr res"
    using rest by simp
  from Cons.IH[OF this ds] show ?case .
qed

lemma go_reflexive: "go n f s = Some d \<Longrightarrow> reflexive_differ d"
proof (induction n arbitrary: s d)
  case 0
  then show ?case by simp
next
  case (Suc n)
  show ?case
  proof (cases s)
    case NumberKeyword
    with Suc.prems show ?thesis
      by (auto simp: reflexive_differ_def number_differ_def object_is_refl make_def identical_def)
  next
    case (Tuple els rest)
    with Suc.prems obtain ds where ds: "those (map (\<lambda>e. go n f (el_type e)) els) = Some ds"
      and d: "d = tuple_differ ds"
      by (auto split: option.splits)
    have all: "\<forall>d \<in> set ds. reflexive_differ d"
      using those_map_Some_all[OF ds] Suc.IH by blast
    show ?thesis
      unfolding reflexive_differ_def d
    proof (intro allI impI)
      fix a p
      assume a: "nan_free a" and run: "tuple_differ ds a a = Inr p"
      from run obtain res where res: "tuple_loop ds 0 a a [] = Inr res"
        and p: "p = (if res \<noteq> [] then ArrayOps res else Identical)"
        by (auto simp: tuple_differ_def bindE_Inr_iff make_def arrayOps_def identical_def)
      from tuple_loop_refl[OF all a res] p show "p = Identical" by simp
    qed
  next
    case (TypeLiteral pss iss)
    with Suc.prems obtain pds ids where
      pds: "those (map (\<lambda>ps. go n f (ps_type ps)) pss) = Some pds" and
      ids: "those (map (\<lambda>is. go n f (is_type is)) iss) = Some ids" and
      d: "d = typeLiteral_differ pss iss pds ids"
      by (auto split: option.splits)
    have "\<forall>d \<in> set pds. reflexive_differ d" "\<forall>d \<in> set ids. reflexive_differ d"
      using those_map_Some_all[OF pds] those_map_Some_all[OF ids] Suc.IH by blast+
    then have s1: "\<forall>d \<in> snd ` set (zip (map ps_name pss) pds). reflexive_differ d"
      and s2: "\<forall>d \<in> snd ` set (zip (map is_parameter iss) ids). reflexive_differ d"
      by (auto dest: set_zip_rightD)
    show ?thesis
      unfolding reflexive_differ_def d
    proof (intro allI impI)
      fix a p
      assume a: "nan_free a" and run: "typeLiteral_differ pss iss pds ids a a = Inr p"
      from run obtain ops1 ops where
        l1: "propertySignatures_loop (zip (map ps_name pss) pds) a a [] = Inr ops1" and
        l2: "(if length ids > 0
              then indexSignatures_loop (expectedKeys pss) (zip (map is_parameter iss) ids) a a ops1
              else Inr ops1) = Inr ops" and
        p: "p = (if ops \<noteq> [] then ObjectOps ops else Identical)"
        by (auto simp: typeLiteral_differ_def bindE_Inr_iff make_def objectOps_def identical_def)
      from propertySignatures_loop_refl[OF s1 a l1] have o1: "ops1 = []" .
      have "ops = []"
      proof (cases "length ids > 0")
        case True
        with l2 o1 indexSignatures_loop_refl[OF s2 a] show ?thesis by simp
      next
        case False
        with l2 o1 show ?thesis by simp
      qed
      with p show "p = Identical" by simp
    qed
  next
    case (Refinement base)
    with Suc.prems Suc.IH show ?thesis by simp
  next
    case (Lazy t)
    with Suc.prems Suc.IH show ?thesis by simp
  qed (use Suc.prems in
      \<open>auto simp: reflexive_differ_def leaf_differ_def strict_equals_refl make_def identical_def\<close>)
qed

lemma identity_without_nan:
  "go n f s = Some d \<Longrightarrow> nan_free a \<Longrightarrow> d a a = Inr p \<Longrightarrow> p = Identical"
  using go_reflexive by (auto simp: reflexive_differ_def)

end
